theory Spec2Isabelle
  imports Main "HOL-Library.Word"
begin

unbundle bit_operations_syntax

section \<open>JavaScript numbers and strings, as far as Board uses them\<close>

text \<open>
  Strings are lists of ASCII characters. \<open>jsnum\<close> is a JavaScript number that is an
  integer, or \<open>NaN\<close>: Board only ever computes with register words, loop counters and
  values parsed from short digit strings, so every number it handles is an integer far
  below \<open>2 ^ 53\<close> (exact in a double) or \<open>NaN\<close>.
\<close>

datatype jsnum = Num int | NaN

fun js_add :: "jsnum \<Rightarrow> jsnum \<Rightarrow> jsnum" where
  "js_add (Num a) (Num b) = Num (a + b)"
| "js_add _ _ = NaN"

fun js_sub :: "jsnum \<Rightarrow> jsnum \<Rightarrow> jsnum" where
  "js_sub (Num a) (Num b) = Num (a - b)"
| "js_sub _ _ = NaN"

fun js_mul :: "jsnum \<Rightarrow> jsnum \<Rightarrow> jsnum" where
  "js_mul (Num a) (Num b) = Num (a * b)"
| "js_mul _ _ = NaN"

text \<open>\<open>a < b\<close>: false as soon as one side is \<open>NaN\<close>.\<close>

fun js_lt :: "jsnum \<Rightarrow> jsnum \<Rightarrow> bool" where
  "js_lt (Num a) (Num b) = (a < b)"
| "js_lt _ _ = False"

text \<open>
  An operand that may be \<open>undefined\<close> (\<open>None\<close>): an array read past the end. \<open>ToNumber\<close>
  of \<open>undefined\<close> is \<open>NaN\<close>.
\<close>

definition toNumber_opt :: "jsnum option \<Rightarrow> jsnum" where
  "toNumber_opt x = (case x of None \<Rightarrow> NaN | Some n \<Rightarrow> n)"

text \<open>\<open>xs[i]\<close> on a JavaScript array: \<open>undefined\<close> outside \<open>0 .. length - 1\<close>, also for a
  negative index.\<close>

definition js_index :: "'a list \<Rightarrow> int \<Rightarrow> 'a option" where
  "js_index xs i = (if 0 \<le> i \<and> i < int (length xs) then Some (xs ! nat i) else None)"

subsection \<open>Digits\<close>

definition digit_char :: "nat \<Rightarrow> char" where
  "digit_char d = ''0123456789'' ! d"

definition digit_val :: "char \<Rightarrow> nat option" where
  "digit_val c =
     map_of
       [(CHR ''0'', 0), (CHR ''1'', 1), (CHR ''2'', 2), (CHR ''3'', 3), (CHR ''4'', 4),
        (CHR ''5'', 5), (CHR ''6'', 6), (CHR ''7'', 7), (CHR ''8'', 8), (CHR ''9'', 9)] c"

text \<open>The digits of \<open>n\<close> in radix \<open>r\<close>, most significant first, for \<open>2 \<le> r \<le> 10\<close> (Board
  uses 2 and 10). \<open>Number.prototype.toString\<close> raises for a radix below 2, and a radix above
  10 needs letters, which are not modelled; the empty string stands for both here.\<close>

function digits :: "nat \<Rightarrow> nat \<Rightarrow> string" where
  "digits r n =
     (if r < 2 \<or> 10 < r then []
      else if n < r then [digit_char n]
      else digits r (n div r) @ [digit_char (n mod r)])"
  by pat_completeness auto
termination
  by (relation "measure snd") auto

declare digits.simps [simp del]

text \<open>\<open>x.toString(r)\<close> and, with \<open>r = 10\<close>, the conversion \<open>String(x)\<close> that string
  concatenation and \<open>parseInt\<close> apply to a number.\<close>

fun num_toString :: "nat \<Rightarrow> jsnum \<Rightarrow> string" where
  "num_toString r (Num n) =
     (if n < 0 then CHR ''-'' # digits r (nat (- n)) else digits r (nat n))"
| "num_toString r NaN = ''NaN''"

definition is_space :: "char \<Rightarrow> bool" where
  "is_space c \<longleftrightarrow> c \<in> set [CHR '' '', CHR 0x09, CHR 0x0A, CHR 0x0B, CHR 0x0C, CHR 0x0D]"

definition is_digit :: "nat \<Rightarrow> char \<Rightarrow> bool" where
  "is_digit r c = (case digit_val c of None \<Rightarrow> False | Some d \<Rightarrow> d < r)"

definition value_of :: "nat \<Rightarrow> string \<Rightarrow> nat" where
  "value_of r s = foldl (\<lambda>a c. a * r + (case digit_val c of None \<Rightarrow> 0 | Some d \<Rightarrow> d)) 0 s"

text \<open>
  \<open>parseInt(x, r)\<close> for \<open>2 \<le> r \<le> 10\<close>; the argument is a string or \<open>undefined\<close> (\<open>None\<close>,
  which reads as the string "undefined" and so gives \<open>NaN\<close>). Leading blanks are skipped,
  one sign is accepted, the longest run of digits of the radix is read, and no digit at
  all gives \<open>NaN\<close>. Board's calls without a radix receive one character or \<open>undefined\<close>,
  where the default radix is 10. The value is exact: Board parses the decimal numeral of a
  register word, slices of a sixteen-character string and single characters, all far
  below \<open>2 ^ 53\<close>.
\<close>

definition parseInt :: "nat \<Rightarrow> string option \<Rightarrow> jsnum" where
  "parseInt r x =
     (case x of
        None \<Rightarrow> NaN
      | Some s \<Rightarrow>
          (let t = dropWhile is_space s;
               neg = (t \<noteq> [] \<and> hd t = CHR ''-'');
               u = (if t \<noteq> [] \<and> (hd t = CHR ''-'' \<or> hd t = CHR ''+'') then tl t else t);
               ds = takeWhile (is_digit r) u
           in if ds = [] then NaN
              else Num ((if neg then - 1 else 1) * int (value_of r ds))))"

text \<open>\<open>s.slice(a, b)\<close> for \<open>0 \<le> a \<le> b\<close> and \<open>s.slice(- k)\<close>.\<close>

definition js_slice :: "nat \<Rightarrow> nat \<Rightarrow> string \<Rightarrow> string" where
  "js_slice a b s = take (b - a) (drop a s)"

definition slice_end :: "nat \<Rightarrow> string \<Rightarrow> string" where
  "slice_end k s = drop (length s - k) s"

text \<open>\<open>s.split(c)\<close> for a one-character separator: never empty, \<open>"".split(c)\<close> is \<open>[""]\<close>.\<close>

fun split_on :: "char \<Rightarrow> string \<Rightarrow> string list" where
  "split_on c [] = [[]]"
| "split_on c (x # xs) =
     (if x = c then [] # split_on c xs
      else (case split_on c xs of [] \<Rightarrow> [[x]] | y # ys \<Rightarrow> (x # y) # ys))"

section \<open>Board.dec2bin\<close>

text \<open>
  \<open>dec2bin(dec)\<close>: \<open>parseInt(dec, 10).toString(2)\<close>, left-padded with sixteen zeros and cut to
  its last sixteen characters. \<open>dec\<close> is a number or \<open>undefined\<close>.
\<close>

definition dec2bin :: "jsnum option \<Rightarrow> string" where
  "dec2bin dec =
     (let bin = num_toString 2 (parseInt 10 (map_option (num_toString 10) dec))
      in slice_end 16 (''0000000000000000'' @ bin))"

section \<open>Objects used as dictionaries\<close>

text \<open>
  \<open>this.state\<close>, \<open>this.counter\<close> and (in the older file) \<open>this.data\<close> are plain objects
  created by \<open>{}\<close>, read with \<open>obj[id]\<close> and written with \<open>obj[id] = v\<close>. The map holds the
  object's own properties. A read of a name that is not an own property falls through to
  \<open>Object.prototype\<close>, which answers for its own twelve names with a function or an object,
  never \<open>undefined\<close>.
\<close>

definition object_prototype_names :: "string list" where
  "object_prototype_names =
     [''constructor'', ''__defineGetter__'', ''__defineSetter__'', ''hasOwnProperty'',
      ''__lookupGetter__'', ''__lookupSetter__'', ''isPrototypeOf'', ''propertyIsEnumerable'',
      ''toString'', ''valueOf'', ''__proto__'', ''toLocaleString'']"

datatype jsval = Undefined | Inherited | Own jsnum

definition prop_get :: "(string \<rightharpoonup> jsnum) \<Rightarrow> string \<Rightarrow> jsval" where
  "prop_get m k =
     (case m k of
        Some v \<Rightarrow> Own v
      | None \<Rightarrow> if k \<in> set object_prototype_names then Inherited else Undefined)"

text \<open>Assigning a number to \<open>__proto__\<close> goes to the inherited setter, which ignores it.\<close>

definition prop_set :: "(string \<rightharpoonup> jsnum) \<Rightarrow> string \<Rightarrow> jsnum \<Rightarrow> (string \<rightharpoonup> jsnum)" where
  "prop_set m k v = (if k = ''__proto__'' then m else m(k \<mapsto> v))"

text \<open>\<open>x !== v\<close> where \<open>v\<close> is a number: \<open>NaN\<close> differs from everything, itself included.\<close>

fun strict_neq :: "jsval \<Rightarrow> jsnum \<Rightarrow> bool" where
  "strict_neq (Own (Num a)) (Num b) = (a \<noteq> b)"
| "strict_neq _ _ = True"

fun js_Boolean :: "jsval \<Rightarrow> bool" where
  "js_Boolean Undefined = False"
| "js_Boolean Inherited = True"
| "js_Boolean (Own NaN) = False"
| "js_Boolean (Own (Num n)) = (n \<noteq> 0)"

section \<open>The board (src/unnamed/part_000)\<close>

record group =
  g_id :: int
  g_di :: jsnum
  g_do :: jsnum
  g_ai :: jsnum
  g_ao :: jsnum
  g_serial :: jsnum

text \<open>What the \<open>error\<close> logger is called with: a description from the table, or the error
  object itself (kept as its message).\<close>

datatype logline = Description string | RawError string

text \<open>
  The fields of \<open>Board\<close>. \<open>groups\<close> is a JavaScript array that callbacks fill by index, so a
  slot can be a hole (\<open>None\<close>). \<open>updates\<close> and \<open>errlog\<close> record, in order, the 'update'
  notifications emitted and the lines logged so far.
\<close>

record board =
  state :: "string \<rightharpoonup> jsnum"
  counter :: "string \<rightharpoonup> jsnum"
  groups :: "group option list"
  updates :: "(string \<times> string) list"
  errlog :: "logline list"

text \<open>The board right after \<open>constructor\<close> has returned.\<close>

definition new_board :: board where
  "new_board = \<lparr>state = Map.empty, counter = Map.empty, groups = [], updates = [], errlog = []\<rparr>"

datatype error = UnknownID string | TypeError

text \<open>The transport's answer to a register read: the error's message, or the words read.\<close>

type_synonym response = "string + 16 word list"

definition word_at :: "16 word list \<Rightarrow> nat \<Rightarrow> jsnum option" where
  "word_at d k = map_option (\<lambda>w. Num (uint w)) (js_index d (int k))"

subsection \<open>The exception table and the error branch of the read callbacks\<close>

text \<open>\<open>MODUS_ERRNO[k]\<close> for a numeric key \<open>k\<close>.\<close>

definition MODUS_ERRNO :: "jsnum \<Rightarrow> string option" where
  "MODUS_ERRNO k =
     (if k = Num 1 then Some ''Illegal Function''
      else if k = Num 2 then Some ''Illegal Data Address''
      else if k = Num 3 then Some ''Illegal Data Value''
      else if k = Num 4 then Some ''Failure In Associated Device''
      else if k = Num 5 then Some ''Acknowledge''
      else if k = Num 6 then Some ''Busy, Rejected Message''
      else if k = Num 7 then
        Some (''NAK '' @ [CHR 0xE2, CHR 0x80, CHR 0x93] @ '' Negative Acknowledgement'')
      else if k = Num 8 then Some ''Memory Parity Error''
      else if k = Num 10 then Some ''Gateway Path Unavailable''
      else if k = Num 11 then Some ''Gateway Target Device Failed to respond''
      else None)"

text \<open>The key the three callbacks look up: \<open>parseInt(err.message.split(' ')[-1])\<close>.\<close>

definition errno_key :: "string \<Rightarrow> jsnum" where
  "errno_key msg = parseInt 10 (js_index (split_on CHR '' '' msg) (- 1))"

text \<open>\<open>if (errdesc) error(errdesc); else error(err);\<close> (every string of the table is
  non-empty, so truthy).\<close>

definition report :: "board \<Rightarrow> string \<Rightarrow> board" where
  "report b msg =
     (case MODUS_ERRNO (errno_key msg) of
        Some errdesc \<Rightarrow> b\<lparr>errlog := errlog b @ [Description errdesc]\<rparr>
      | None \<Rightarrow> b\<lparr>errlog := errlog b @ [RawError msg]\<rparr>)"

subsection \<open>Capability discovery: the callback of the constructor's read for slot \<open>i\<close>\<close>

text \<open>\<open>this.groups[i] = g\<close>: an index past the end extends the array, leaving holes.\<close>

definition assign_slot :: "group option list \<Rightarrow> nat \<Rightarrow> group \<Rightarrow> group option list" where
  "assign_slot gs i g =
     (if i < length gs then gs[i := Some g] else gs @ replicate (i - length gs) None @ [Some g])"

definition decode_group :: "nat \<Rightarrow> 16 word list \<Rightarrow> group" where
  "decode_group i d =
     (let bin = dec2bin (word_at d 0);
          ext = dec2bin (word_at d 1)
      in \<lparr>g_id = int i + 1,
          g_di = parseInt 2 (Some (js_slice 0 8 bin)),
          g_do = parseInt 2 (Some (js_slice 8 16 bin)),
          g_ai = parseInt 2 (Some (js_slice 4 8 ext)),
          g_ao = parseInt 2 (Some (js_slice 8 16 ext)),
          g_serial = parseInt 2 (Some (js_slice 0 4 ext))\<rparr>)"

definition discovered :: "board \<Rightarrow> nat \<Rightarrow> response \<Rightarrow> board" where
  "discovered b i r =
     (case r of
        Inl msg \<Rightarrow> report b msg
      | Inr d \<Rightarrow> b\<lparr>groups := assign_slot (groups b) i (decode_group i d)\<rparr>)"

subsection \<open>validate, getState, storeState\<close>

definition getState :: "board \<Rightarrow> string \<Rightarrow> jsval" where
  "getState b ident = prop_get (state b) ident"

definition validate :: "board \<Rightarrow> string \<Rightarrow> error + unit" where
  "validate b ident = (if getState b ident = Undefined then Inl (UnknownID ident) else Inr ())"

text \<open>\<open>prefix + '.' + (i + 1)\<close>.\<close>

definition point_key :: "string \<Rightarrow> nat \<Rightarrow> string" where
  "point_key prefix i = prefix @ ''.'' @ num_toString 10 (Num (int i + 1))"

text \<open>The conditional update inside the loop of \<open>storeState\<close> (lines 185 to 191), for the
  \<open>id\<close> and \<open>value\<close> computed on the two lines before it.\<close>

definition store_entry :: "board \<Rightarrow> string \<Rightarrow> jsnum \<Rightarrow> board" where
  "store_entry b ident val =
     (let currentValue = getState b ident
      in if strict_neq currentValue val then
           (let b' = b\<lparr>state := prop_set (state b) ident val\<rparr>
            in if currentValue \<noteq> Undefined
               then b'\<lparr>updates := updates b' @ [(ident, num_toString 10 val)]\<rparr>
               else b')
         else b)"

text \<open>One turn of the loop: \<open>arr[i]\<close> is \<open>undefined\<close> from index 16 on.\<close>

definition storeStep :: "board \<Rightarrow> string \<Rightarrow> string list \<Rightarrow> nat \<Rightarrow> board" where
  "storeStep b prefix arr i =
     store_entry b (point_key prefix i) (parseInt 10 (js_index arr (int i)))"

function storeLoop :: "board \<Rightarrow> string \<Rightarrow> string list \<Rightarrow> jsnum \<Rightarrow> nat \<Rightarrow> board" where
  "storeLoop b prefix arr len i =
     (if js_lt (Num (int i)) len
      then storeLoop (storeStep b prefix arr i) prefix arr len (i + 1)
      else b)"
  by pat_completeness auto
termination
  by (relation "measure (\<lambda>(b, prefix, arr, len, i). case len of Num n \<Rightarrow> nat n - i | NaN \<Rightarrow> 0)")
     (auto split: jsnum.splits elim: js_lt.elims)

declare storeLoop.simps [simp del]

text \<open>\<open>bin.split('').reverse()\<close>: the characters of the string, last first.\<close>

definition decode :: "jsnum option \<Rightarrow> string list" where
  "decode val = rev (map (\<lambda>c. [c]) (dec2bin val))"

text \<open>\<open>storeState(prefix, value, length)\<close>; every caller passes \<open>length\<close>.\<close>

definition storeState :: "board \<Rightarrow> string \<Rightarrow> jsnum option \<Rightarrow> jsnum \<Rightarrow> board" where
  "storeState b prefix val len = storeLoop b prefix (decode val) len 0"

subsection \<open>updateState\<close>

text \<open>A read handed to the transport: start address (\<open>None\<close> is \<open>undefined\<close>), register
  count, and the group its callback has captured.\<close>

datatype read = Read "jsnum option" jsnum group

text \<open>The loop of \<open>updateState\<close> over \<open>this.groups\<close>: the reads issued, and the \<open>TypeError\<close>
  that ends the loop at the first hole (\<open>group.id\<close> of \<open>undefined\<close>).\<close>

fun updateState_loop :: "group option list \<Rightarrow> read list \<times> error option" where
  "updateState_loop [] = ([], None)"
| "updateState_loop (None # gs) = ([], Some TypeError)"
| "updateState_loop (Some g # gs) =
     (let (rs, e) = updateState_loop gs
      in (Read (Some (js_mul (js_sub (Num (g_id g)) (Num 1)) (Num 100))) (Num 2) g # rs, e))"

definition updateState :: "board \<Rightarrow> read list \<times> error option" where
  "updateState b = updateState_loop (groups b)"

text \<open>The callback of one such read.\<close>

definition updateState_cb :: "board \<Rightarrow> group \<Rightarrow> response \<Rightarrow> board" where
  "updateState_cb b g r =
     (case r of
        Inl msg \<Rightarrow> report b msg
      | Inr d \<Rightarrow>
          storeState
            (storeState b (''DI'' @ num_toString 10 (Num (g_id g))) (word_at d 0) (g_di g))
            (''DO'' @ num_toString 10 (Num (g_id g))) (word_at d 1) (g_do g))"

subsection \<open>updateCount\<close>

definition countStart :: "int list" where
  "countStart = [8, 103, 203]"

fun updateCount_loop :: "nat \<Rightarrow> group option list \<Rightarrow> read list \<times> error option" where
  "updateCount_loop i [] = ([], None)"
| "updateCount_loop i (None # gs) = ([], Some TypeError)"
| "updateCount_loop i (Some g # gs) =
     (let (rs, e) = updateCount_loop (i + 1) gs
      in (Read (map_option Num (js_index countStart (int i))) (js_mul (g_di g) (Num 2)) g # rs, e))"

definition updateCount :: "board \<Rightarrow> read list \<times> error option" where
  "updateCount b = updateCount_loop 0 (groups b)"

text \<open>\<open>data.data[j * 2] + data.data[j * 2 + 1]\<close>.\<close>

definition counter_value :: "16 word list \<Rightarrow> nat \<Rightarrow> jsnum" where
  "counter_value d j = js_add (toNumber_opt (word_at d (j * 2))) (toNumber_opt (word_at d (j * 2 + 1)))"

function countLoop :: "board \<Rightarrow> group \<Rightarrow> 16 word list \<Rightarrow> nat \<Rightarrow> board" where
  "countLoop b g d j =
     (if js_lt (Num (int j)) (g_di g)
      then countLoop
             (b\<lparr>counter := prop_set (counter b)
                   (point_key (''DI'' @ num_toString 10 (Num (g_id g))) j) (counter_value d j)\<rparr>)
             g d (j + 1)
      else b)"
  by pat_completeness auto
termination
  by (relation "measure (\<lambda>(b, g, d, j). case g_di g of Num n \<Rightarrow> nat n - j | NaN \<Rightarrow> 0)")
     (auto split: jsnum.splits elim: js_lt.elims)

declare countLoop.simps [simp del]

definition updateCount_cb :: "board \<Rightarrow> group \<Rightarrow> response \<Rightarrow> board" where
  "updateCount_cb b g r = (case r of Inl msg \<Rightarrow> report b msg | Inr d \<Rightarrow> countLoop b g d 0)"

subsection \<open>set\<close>

text \<open>\<open>s.substr(s.length - 1, 1)\<close>: the last character, or the empty string.\<close>

definition last_char :: "string \<Rightarrow> string" where
  "last_char s = (if s = [] then [] else [last s])"

text \<open>
  The conversion of a string to a number that \<open>-\<close> applies to its operands. It is modelled
  where the result is an exact integer: the empty string (0) and a run of at most fifteen
  decimal digits. \<open>None\<close> marks every other string: blanks, signs, fractions, exponents,
  radix prefixes, longer runs (which a double may round) and text that gives \<open>NaN\<close> are
  outside the model.
\<close>

definition toNumber_str :: "string \<Rightarrow> jsnum option" where
  "toNumber_str s =
     (if s = [] then Some (Num 0)
      else if list_all (is_digit 10) s \<and> length s \<le> 15 then Some (Num (int (value_of 10 s)))
      else None)"

text \<open>\<open>coilId\<close>, lines 132 to 135. Without a dot in \<open>id\<close>, \<open>arr[1]\<close> is \<open>undefined\<close> and the sum
  is \<open>NaN\<close> whatever the group. \<open>None\<close>: an operand outside the model of \<open>toNumber_str\<close>.\<close>

definition coilId :: "string \<Rightarrow> jsnum option" where
  "coilId ident =
     (case split_on CHR ''.'' ident of
        [] \<Rightarrow> None
      | a0 # rest \<Rightarrow>
          (let grp = last_char a0
           in case js_index (a0 # rest) 1 of
                None \<Rightarrow> Some NaN
              | Some num \<Rightarrow>
                  (case (toNumber_str grp, toNumber_str num) of
                     (Some g, Some n) \<Rightarrow>
                       Some (js_add (js_mul (js_sub g (Num 1)) (Num 100)) (js_sub n (Num 1)))
                   | _ \<Rightarrow> None)))"

text \<open>
  One call \<open>set(id, value, retries)\<close>: the \<open>SyntaxError\<close> of \<open>validate\<close>, or the coil write
  (address, value) and the delay of the verification it schedules, if any.
\<close>

definition set_board ::
  "board \<Rightarrow> string \<Rightarrow> bool \<Rightarrow> nat \<Rightarrow> error + ((jsnum option \<times> bool) \<times> nat option)" where
  "set_board b ident val retries =
     (case validate b ident of
        Inl e \<Rightarrow> Inl e
      | Inr _ \<Rightarrow>
          Inr ((coilId ident, val), if retries < 5 then Some (100 * (retries + 1)) else None))"

text \<open>The test of the timer callback, on the board as it is when the timer fires.\<close>

definition verify_differs :: "board \<Rightarrow> string \<Rightarrow> bool \<Rightarrow> bool" where
  "verify_differs b ident val \<longleftrightarrow> js_Boolean (getState b ident) \<noteq> val"

datatype event = WriteCoil "jsnum option" bool | SetTimeout nat | Retry nat | Throw error

text \<open>
  Everything a call of \<open>set\<close> and the timers it leaves behind do, in order. \<open>obs k\<close> is the
  board as the timer scheduled by the call with retry count \<open>k\<close> finds it; the retry
  it may start runs at once on that board.
\<close>

function set_run :: "(nat \<Rightarrow> board) \<Rightarrow> board \<Rightarrow> string \<Rightarrow> bool \<Rightarrow> nat \<Rightarrow> event list" where
  "set_run obs b ident val retries =
     (case set_board b ident val retries of
        Inl e \<Rightarrow> [Throw e]
      | Inr (w, None) \<Rightarrow> [WriteCoil (fst w) (snd w)]
      | Inr (w, Some delay) \<Rightarrow>
          WriteCoil (fst w) (snd w) # SetTimeout delay #
          (if verify_differs (obs retries) ident val
           then Retry (retries + 1) # set_run obs (obs retries) ident val (retries + 1)
           else []))"
  by pat_completeness auto
termination
  by (relation "measure (\<lambda>(obs, b, ident, val, retries). 5 - retries)")
     (auto simp: set_board_def split: sum.splits if_splits)

declare set_run.simps [simp del]

fun is_write :: "event \<Rightarrow> bool" where
  "is_write (WriteCoil _ _) = True"
| "is_write _ = False"

fun delays :: "event list \<Rightarrow> nat list" where
  "delays [] = []"
| "delays (SetTimeout d # es) = d # delays es"
| "delays (_ # es) = delays es"

section \<open>The two stores with their listeners\<close>

text \<open>
  \<open>emit('update', id, s)\<close> calls the registered listeners at once, before it returns. A
  listener can read the cache, write it, and throw; what all the listeners of 'update'
  do together is a function of the notifications emitted before, the cache as they find
  it and the payload, giving the cache as they leave it and whether one of them threw (a
  throw leaves \<open>emit\<close> and, not being caught, the store function too). \<open>store_entry\<close> and
  \<open>storeState\<close> above are the case of listeners that return and leave the cache alone.
\<close>

type_synonym listener =
  "(string \<times> string) list \<Rightarrow> (string \<rightharpoonup> jsnum) \<Rightarrow> string \<Rightarrow> string \<Rightarrow> (string \<rightharpoonup> jsnum) \<times> bool"

text \<open>How a call ended, with the object as the call left it.\<close>

datatype 'b completion = Normal 'b | Thrown 'b

fun final :: "'b completion \<Rightarrow> 'b" where
  "final (Normal b) = b"
| "final (Thrown b) = b"

subsection \<open>The newer storeState (src/unnamed/part_000), the listeners' call kept\<close>

text \<open>Lines 183 to 191: the assignment comes before the notification.\<close>

definition storeStep_on :: "listener \<Rightarrow> board \<Rightarrow> string \<Rightarrow> string list \<Rightarrow> nat \<Rightarrow> board completion" where
  "storeStep_on l b prefix arr i =
     (let ident = point_key prefix i;
          val = parseInt 10 (js_index arr (int i));
          currentValue = getState b ident
      in if strict_neq currentValue val then
           (let b1 = b\<lparr>state := prop_set (state b) ident val\<rparr>
            in if currentValue \<noteq> Undefined then
                 (let r = l (updates b1) (state b1) ident (num_toString 10 val);
                      b2 = b1\<lparr>state := fst r,
                             updates := updates b1 @ [(ident, num_toString 10 val)]\<rparr>
                  in if snd r then Thrown b2 else Normal b2)
               else Normal b1)
         else Normal b)"

function storeLoop_on ::
  "listener \<Rightarrow> board \<Rightarrow> string \<Rightarrow> string list \<Rightarrow> jsnum \<Rightarrow> nat \<Rightarrow> board completion" where
  "storeLoop_on l b prefix arr len i =
     (if js_lt (Num (int i)) len
      then (case storeStep_on l b prefix arr i of
              Thrown b' \<Rightarrow> Thrown b'
            | Normal b' \<Rightarrow> storeLoop_on l b' prefix arr len (i + 1))
      else Normal b)"
  by pat_completeness auto
termination
  by (relation "measure (\<lambda>(l, b, prefix, arr, len, i). case len of Num n \<Rightarrow> nat n - i | NaN \<Rightarrow> 0)")
     (auto split: jsnum.splits elim: js_lt.elims)

declare storeLoop_on.simps [simp del]

definition storeState_on ::
  "listener \<Rightarrow> board \<Rightarrow> string \<Rightarrow> jsnum option \<Rightarrow> jsnum \<Rightarrow> board completion" where
  "storeState_on l b prefix val len = storeLoop_on l b prefix (decode val) len 0"

subsection \<open>The older store (src/Board.js)\<close>

text \<open>The older class keeps the cache in \<open>this.data\<close>; its \<open>dec2bin\<close> is the same text as
  the newer one's.\<close>

record old_board =
  data :: "string \<rightharpoonup> jsnum"
  old_updates :: "(string \<times> string) list"

definition get_old :: "old_board \<Rightarrow> string \<Rightarrow> jsval" where
  "get_old b ident = prop_get (data b) ident"

text \<open>Lines 60 to 68: the notification comes before the assignment, so a listener that
  throws leaves \<open>data[id]\<close> as it was.\<close>

definition store_step ::
  "listener \<Rightarrow> old_board \<Rightarrow> string \<Rightarrow> string list \<Rightarrow> nat \<Rightarrow> old_board completion" where
  "store_step l b prefix arr i =
     (let ident = point_key prefix i;
          val = parseInt 10 (js_index arr (int i));
          currentValue = get_old b ident
      in if strict_neq currentValue val then
           (if currentValue \<noteq> Undefined then
              (let r = l (old_updates b) (data b) ident (num_toString 10 val);
                   b1 = b\<lparr>data := fst r,
                          old_updates := old_updates b @ [(ident, num_toString 10 val)]\<rparr>
               in if snd r then Thrown b1
                  else Normal (b1\<lparr>data := prop_set (data b1) ident val\<rparr>))
            else Normal (b\<lparr>data := prop_set (data b) ident val\<rparr>))
         else Normal b)"

function store_loop ::
  "listener \<Rightarrow> old_board \<Rightarrow> string \<Rightarrow> string list \<Rightarrow> jsnum \<Rightarrow> nat \<Rightarrow> old_board completion" where
  "store_loop l b prefix arr len i =
     (if js_lt (Num (int i)) len
      then (case store_step l b prefix arr i of
              Thrown b' \<Rightarrow> Thrown b'
            | Normal b' \<Rightarrow> store_loop l b' prefix arr len (i + 1))
      else Normal b)"
  by pat_completeness auto
termination
  by (relation "measure (\<lambda>(l, b, prefix, arr, len, i). case len of Num n \<Rightarrow> nat n - i | NaN \<Rightarrow> 0)")
     (auto split: jsnum.splits elim: js_lt.elims)

declare store_loop.simps [simp del]

definition store ::
  "listener \<Rightarrow> old_board \<Rightarrow> string \<Rightarrow> jsnum option \<Rightarrow> jsnum \<Rightarrow> old_board completion" where
  "store l b prefix val len = store_loop l b prefix (decode val) len 0"

section \<open>Runs of the board\<close>

text \<open>
  What can happen to a board after construction: a discovery callback for a slot, the
  callback of a states read or of a counters read (with the group its closure holds), and
  a call of \<open>set\<close>, which writes a coil and leaves the board as it is whether it throws or
  not.
\<close>

datatype op =
    Discovered nat response
  | StateRead group response
  | CountRead group response
  | SetCall string bool nat

fun step :: "board \<Rightarrow> op \<Rightarrow> board" where
  "step b (Discovered i r) = discovered b i r"
| "step b (StateRead g r) = updateState_cb b g r"
| "step b (CountRead g r) = updateCount_cb b g r"
| "step b (SetCall ident val retries) = b"

definition run :: "board \<Rightarrow> op list \<Rightarrow> board" where
  "run b ops = foldl step b ops"

section \<open>Notions used in the statements\<close>

text \<open>The last \<open>k\<close> characters of the zero-padded binary numeral of \<open>n\<close>: what \<open>dec2bin\<close>
  returns for a number, with \<open>k = 16\<close>.\<close>

definition pad :: "nat \<Rightarrow> nat \<Rightarrow> string" where
  "pad k n = slice_end k (replicate k CHR ''0'' @ digits 2 n)"

text \<open>Every value held in the state cache is 0 or 1.\<close>

definition cache_boolean :: "board \<Rightarrow> bool" where
  "cache_boolean b \<longleftrightarrow> ran (state b) \<subseteq> {Num 0, Num 1}"

text \<open>A states read that delivered its two words, decoded with counts that are not above
  16 (the bits a register has). Every other operation passes.\<close>

fun op_ok :: "op \<Rightarrow> bool" where
  "op_ok (StateRead g (Inr d)) =
     (2 \<le> length d \<and> \<not> js_lt (Num 16) (g_di g) \<and> \<not> js_lt (Num 16) (g_do g))"
| "op_ok _ = True"


section \<open>Digits, \<open>parseInt\<close> and \<open>dec2bin\<close>\<close>

lemma digit_val_char: "d < 10 \<Longrightarrow> digit_val (digit_char d) = Some d"
proof -
  assume "d < 10"
  then have "d = 0 \<or> d = 1 \<or> d = 2 \<or> d = 3 \<or> d = 4 \<or> d = 5 \<or> d = 6 \<or> d = 7 \<or> d = 8 \<or> d = 9"
    by arith
  then show ?thesis
    by (elim disjE) (simp_all add: digit_char_def digit_val_def)
qed

lemma value_of_snoc: "value_of r (s @ [c]) = value_of r s * r + (case digit_val c of None \<Rightarrow> 0 | Some d \<Rightarrow> d)"
  by (simp add: value_of_def)

lemma is_digit_char: "d < r \<Longrightarrow> r \<le> 10 \<Longrightarrow> is_digit r (digit_char d)"
  by (simp add: is_digit_def digit_val_char)

lemma digits_all: "2 \<le> r \<Longrightarrow> r \<le> 10 \<Longrightarrow> list_all (is_digit r) (digits r n)"
proof (induction r n rule: digits.induct)
  case (1 r n)
  show ?case
  proof (cases "n < r")
    case True
    with 1 show ?thesis by (simp add: digits.simps [of r n] is_digit_char)
  next
    case False
    with 1 show ?thesis by (simp add: digits.simps [of r n] is_digit_char)
  qed
qed

lemma digits_value: "2 \<le> r \<Longrightarrow> r \<le> 10 \<Longrightarrow> value_of r (digits r n) = n"
proof (induction r n rule: digits.induct)
  case (1 r n)
  show ?case
  proof (cases "n < r")
    case True
    with 1 show ?thesis by (simp add: digits.simps [of r n] value_of_def digit_val_char)
  next
    case False
    with 1 have "value_of r (digits r (n div r)) = n div r" by simp
    moreover have "n mod r < r" using 1(2) by simp
    then have "n mod r < 10" using 1(3) by simp
    ultimately show ?thesis using False 1(2,3)
      by (simp add: digits.simps [of r n] value_of_snoc digit_val_char)
  qed
qed

lemma digits_nonempty: "2 \<le> r \<Longrightarrow> r \<le> 10 \<Longrightarrow> digits r n \<noteq> []"
  by (subst digits.simps) simp

lemma is_digit_plain: "is_digit r c \<Longrightarrow> \<not> is_space c \<and> c \<noteq> CHR ''-'' \<and> c \<noteq> CHR ''+''"
  by (auto simp: is_digit_def is_space_def digit_val_def split: option.splits if_splits)

lemma parseInt_digits:
  assumes "s \<noteq> []" "list_all (is_digit r) s"
  shows "parseInt r (Some s) = Num (int (value_of r s))"
proof -
  obtain c cs where s: "s = c # cs" using assms(1) by (cases s) auto
  have c: "is_digit r c" using assms(2) s by simp
  have plain: "\<not> is_space c" "c \<noteq> CHR ''-''" "c \<noteq> CHR ''+''" using is_digit_plain [OF c] by auto
  have tw: "takeWhile (is_digit r) s = s" using assms(2) by (simp add: list_all_iff)
  have "dropWhile is_space s = s" using s plain by simp
  then show ?thesis using s plain tw by (simp add: parseInt_def Let_def)
qed

lemma parseInt_of_digits: "2 \<le> r \<Longrightarrow> r \<le> 10 \<Longrightarrow> parseInt r (Some (digits r n)) = Num (int n)"
  by (simp add: parseInt_digits digits_nonempty digits_all digits_value)

lemma pad_0: "pad 0 n = []"
  by (simp add: pad_def slice_end_def)

lemma pad_Suc: "pad (Suc k) n = pad k (n div 2) @ [digit_char (n mod 2)]"
proof (cases "n < 2")
  case True
  then have d: "digits 2 n = [digit_char n]" "digits 2 (n div 2) = [digit_char 0]" "n mod 2 = n"
    by (simp_all add: digits.simps [of 2 n] digits.simps [of 2 0])
  have z: "digit_char 0 = CHR ''0''" by (simp add: digit_char_def)
  have "replicate k CHR ''0'' @ [CHR ''0''] = CHR ''0'' # replicate k CHR ''0''"
    by (rule replicate_append_same)
  then show ?thesis by (simp add: pad_def slice_end_def d z)
next
  case False
  then have d: "digits 2 n = digits 2 (n div 2) @ [digit_char (n mod 2)]"
    by (simp add: digits.simps [of 2 n])
  show ?thesis by (simp add: pad_def slice_end_def d)
qed

lemma length_pad: "length (pad k n) = k"
  by (induction k arbitrary: n) (simp_all add: pad_0 pad_Suc)

lemma pad_bit: "i < k \<Longrightarrow> rev (pad k n) ! i = digit_char (n div 2 ^ i mod 2)"
proof (induction k arbitrary: n i)
  case 0
  then show ?case by simp
next
  case (Suc k)
  show ?case
  proof (cases i)
    case 0
    then show ?thesis by (simp add: pad_Suc)
  next
    case (Suc j)
    with Suc.prems have "j < k" by simp
    from Suc.IH [OF this, of "n div 2"] show ?thesis
      by (simp add: pad_Suc Suc div_mult2_eq)
  qed
qed

lemma pad_all: "list_all (is_digit 2) (pad k n)"
  by (induction k arbitrary: n) (simp_all add: pad_0 pad_Suc is_digit_char)

lemma pad_value: "value_of 2 (pad k n) = n mod 2 ^ k"
proof (induction k arbitrary: n)
  case 0
  show ?case by (simp add: pad_0 value_of_def)
next
  case (Suc k)
  have "n mod (2 * 2 ^ k) = 2 * (n div 2 mod 2 ^ k) + n mod 2"
    by (rule mod_mult2_eq)
  then show ?case
    by (simp add: pad_Suc value_of_snoc Suc digit_val_char)
qed

lemma take_pad: "take j (pad (j + m) n) = pad j (n div 2 ^ m)"
proof (induction m arbitrary: n)
  case 0
  show ?case by (simp add: length_pad)
next
  case (Suc m)
  show ?case by (simp add: pad_Suc length_pad Suc div_mult2_eq)
qed

lemma drop_pad: "drop j (pad (j + m) n) = pad m n"
proof (induction m arbitrary: n)
  case 0
  show ?case by (simp add: length_pad pad_0)
next
  case (Suc m)
  show ?case by (simp add: pad_Suc length_pad Suc)
qed

lemma dec2bin_pad: "dec2bin (Some (Num (int n))) = pad 16 n"
proof -
  have "replicate 16 CHR ''0'' = ''0000000000000000''"
    by (simp add: numeral_eq_Suc)
  then show ?thesis
    by (simp add: dec2bin_def pad_def parseInt_of_digits)
qed

lemma parseInt_pad: "0 < k \<Longrightarrow> parseInt 2 (Some (pad k n)) = Num (int (n mod 2 ^ k))"
proof -
  assume "0 < k"
  then have "pad k n \<noteq> []" using length_pad [of k n] by auto
  then show ?thesis by (simp add: parseInt_digits pad_all pad_value)
qed

lemma parseInt_digit_char: "d < 10 \<Longrightarrow> parseInt 10 (Some [digit_char d]) = Num (int d)"
  by (simp add: parseInt_digits is_digit_char value_of_def digit_val_char)

lemma length_decode: "length (decode (Some (Num (int n)))) = 16"
  by (simp add: decode_def dec2bin_pad length_pad)

lemma decode_nth:
  "i < 16 \<Longrightarrow> decode (Some (Num (int n))) ! i = [digit_char (n div 2 ^ i mod 2)]"
  by (simp add: decode_def dec2bin_pad rev_map length_pad pad_bit)

lemma decode_parse:
  "i < 16 \<Longrightarrow> parseInt 10 (js_index (decode (Some (Num (int n)))) (int i)) = Num (int (n div 2 ^ i mod 2))"
  by (simp add: js_index_def length_decode decode_nth parseInt_digit_char)

lemma decode_parse_out:
  "16 \<le> i \<Longrightarrow> parseInt 10 (js_index (decode (Some (Num (int n)))) (int i)) = NaN"
  by (simp add: js_index_def length_decode parseInt_def)


lemma word_at_0: "word_at (w # ws) 0 = Some (Num (int (unat w)))"
proof -
  have "uint w = int (unat w)" by (rule uint_nat)
  then show ?thesis by (simp only: word_at_def js_index_def) simp
qed

lemma word_at_1: "word_at (w0 # w1 # ws) 1 = Some (Num (int (unat w1)))"
proof -
  have "uint w1 = int (unat w1)" by (rule uint_nat)
  then show ?thesis by (simp only: word_at_def js_index_def) simp
qed

lemma slice_pad_hi: "js_slice 0 8 (pad 16 n) = pad 8 (n div 2 ^ 8)"
  using take_pad [of 8 8 n] by (simp add: js_slice_def)

lemma slice_pad_lo: "js_slice 8 16 (pad 16 n) = pad 8 n"
  using drop_pad [of 8 8 n] length_pad [of 8 n] by (simp add: js_slice_def)

lemma slice_pad_mid: "js_slice 4 8 (pad 16 n) = pad 4 (n div 2 ^ 8)"
proof -
  have "drop 4 (pad 16 n) = pad 12 n" using drop_pad [of 4 12 n] by simp
  moreover have "take 4 (pad 12 n) = pad 4 (n div 2 ^ 8)" using take_pad [of 4 8 n] by simp
  ultimately show ?thesis by (simp add: js_slice_def)
qed

lemma slice_pad_top: "js_slice 0 4 (pad 16 n) = pad 4 (n div 2 ^ 12)"
  using take_pad [of 4 12 n] by (simp add: js_slice_def)

lemma unat_16_bound: "unat (w :: 16 word) < 2 ^ 16"
  using unsigned_less [of w] by simp

lemma uint_hi_byte: "uint (drop_bit 8 (w :: 16 word)) = int (unat w div 2 ^ 8 mod 2 ^ 8)"
proof -
  have a: "uint (drop_bit 8 w) = int (unat (drop_bit 8 w))" by (rule uint_nat)
  have b: "unat (drop_bit 8 w) = unat w div 2 ^ 8"
    by (simp only: unat_drop_bit_eq) (simp only: drop_bit_eq_div)
  have "unat w div 2 ^ 8 < 2 ^ 8" using unat_16_bound [of w] by (simp add: less_mult_imp_div_less)
  then have c: "unat w div 2 ^ 8 mod 2 ^ 8 = unat w div 2 ^ 8" by simp
  show ?thesis by (simp only: a b c)
qed

lemma uint_lo_byte: "uint (take_bit 8 (w :: 16 word)) = int (unat w mod 2 ^ 8)"
proof -
  have a: "uint (take_bit 8 w) = int (unat (take_bit 8 w))" by (rule uint_nat)
  have b: "unat (take_bit 8 w) = unat w mod 2 ^ 8"
    by (simp only: unsigned_take_bit_eq) (simp only: take_bit_eq_mod)
  show ?thesis by (simp only: a b)
qed

lemma uint_mid_nibble:
  "uint (take_bit 4 (drop_bit 8 (w :: 16 word))) = int (unat w div 2 ^ 8 mod 2 ^ 4)"
proof -
  have a: "uint (take_bit 4 (drop_bit 8 w)) = int (unat (take_bit 4 (drop_bit 8 w)))"
    by (rule uint_nat)
  have b: "unat (take_bit 4 (drop_bit 8 w)) = unat w div 2 ^ 8 mod 2 ^ 4"
    by (simp only: unsigned_take_bit_eq unat_drop_bit_eq) (simp only: take_bit_eq_mod drop_bit_eq_div)
  show ?thesis by (simp only: a b)
qed

lemma uint_top_nibble: "uint (drop_bit 12 (w :: 16 word)) = int (unat w div 2 ^ 12 mod 2 ^ 4)"
proof -
  have a: "uint (drop_bit 12 w) = int (unat (drop_bit 12 w))" by (rule uint_nat)
  have b: "unat (drop_bit 12 w) = unat w div 2 ^ 12"
    by (simp only: unat_drop_bit_eq) (simp only: drop_bit_eq_div)
  have "unat w div 2 ^ 12 < 2 ^ 4" using unat_16_bound [of w] by (simp add: less_mult_imp_div_less)
  then have c: "unat w div 2 ^ 12 mod 2 ^ 4 = unat w div 2 ^ 12" by simp
  show ?thesis by (simp only: a b c)
qed

lemma decode_group_bits:
  "decode_group i [w0, w1] =
     \<lparr>g_id = int i + 1,
      g_di = Num (uint (drop_bit 8 w0)),
      g_do = Num (uint (take_bit 8 w0)),
      g_ai = Num (uint (take_bit 4 (drop_bit 8 w1))),
      g_ao = Num (uint (take_bit 8 w1)),
      g_serial = Num (uint (drop_bit 12 w1))\<rparr>"
  by (simp only: decode_group_def Let_def word_at_0 word_at_1 dec2bin_pad
    slice_pad_hi slice_pad_lo slice_pad_mid slice_pad_top
    uint_hi_byte uint_lo_byte uint_mid_nibble uint_top_nibble parseInt_pad zero_less_numeral)


section \<open>The store loop\<close>

text \<open>A key with a dot in it is none of the inherited names, so reads and writes of point
  ids behave as on a plain map.\<close>

lemma dot_not_inherited: "CHR ''.'' \<in> set k \<Longrightarrow> k \<notin> set object_prototype_names"
  by (auto simp: object_prototype_names_def)

lemma dot_not_proto: "CHR ''.'' \<in> set k \<Longrightarrow> k \<noteq> ''__proto__''"
  by auto

lemma prop_get_dot:
  "CHR ''.'' \<in> set k \<Longrightarrow> prop_get m k = (case m k of Some v \<Rightarrow> Own v | None \<Rightarrow> Undefined)"
  by (simp add: prop_get_def dot_not_inherited)

lemma prop_set_dot: "CHR ''.'' \<in> set k \<Longrightarrow> prop_set m k v = m(k \<mapsto> v)"
  using dot_not_proto [of k] by (simp add: prop_set_def)

lemma strict_neq_iff: "strict_neq x v \<longleftrightarrow> \<not> (\<exists>a. x = Own (Num a) \<and> v = Num a)"
  by (induction x v rule: strict_neq.induct) auto

lemma store_entry_state:
  assumes "CHR ''.'' \<in> set k"
  shows "state (store_entry b k v) = (state b)(k \<mapsto> v)"
proof (cases "strict_neq (getState b k) v")
  case True
  then show ?thesis by (simp add: store_entry_def Let_def prop_set_dot [OF assms])
next
  case False
  then obtain a where "getState b k = Own (Num a)" "v = Num a"
    by (auto simp: strict_neq_iff)
  then have "state b k = Some v"
    by (auto simp: getState_def prop_get_def split: option.splits if_splits)
  then have "(state b)(k \<mapsto> v) = state b" by (rule map_upd_triv)
  with False show ?thesis by (simp add: store_entry_def Let_def)
qed

lemma store_entry_frame:
  "counter (store_entry b k v) = counter b"
  "groups (store_entry b k v) = groups b"
  "errlog (store_entry b k v) = errlog b"
  by (simp_all add: store_entry_def Let_def)

lemma point_key_digits: "point_key p i = p @ ''.'' @ digits 10 (Suc i)"
proof -
  have "nat (int i + 1) = Suc i" by simp
  then show ?thesis by (simp add: point_key_def)
qed

lemma digits10_inj:
  assumes "digits 10 m = digits 10 n"
  shows "m = n"
proof -
  have "m = value_of 10 (digits 10 m)" by (simp add: digits_value)
  also have "\<dots> = value_of 10 (digits 10 n)" by (simp only: assms)
  also have "\<dots> = n" by (simp add: digits_value)
  finally show ?thesis .
qed

lemma point_key_inj: "point_key p i = point_key p j \<Longrightarrow> i = j"
  by (auto simp: point_key_digits dest: digits10_inj)

lemma point_key_dot: "CHR ''.'' \<in> set (point_key p i)"
  by (simp add: point_key_digits)

lemma storeStep_state:
  "state (storeStep b p arr i) = (state b)(point_key p i \<mapsto> parseInt 10 (js_index arr (int i)))"
  by (simp add: storeStep_def store_entry_state point_key_dot)

lemma storeStep_frame:
  "counter (storeStep b p arr i) = counter b"
  "groups (storeStep b p arr i) = groups b"
  "errlog (storeStep b p arr i) = errlog b"
  by (simp_all add: storeStep_def store_entry_frame)

lemma storeLoop_state_other:
  "(\<And>j. i \<le> j \<Longrightarrow> k \<noteq> point_key p j) \<Longrightarrow> state (storeLoop b p arr len i) k = state b k"
proof (induction b p arr len i rule: storeLoop.induct)
  case (1 b prefix arr len i)
  show ?case
  proof (cases "js_lt (Num (int i)) len")
    case True
    have "state (storeLoop (storeStep b prefix arr i) prefix arr len (i + 1)) k
            = state (storeStep b prefix arr i) k"
      using 1(1) [OF True] 1(2) by simp
    also have "\<dots> = state b k" using 1(2) [of i] by (simp add: storeStep_state)
    finally show ?thesis using True by (simp add: storeLoop.simps [of b prefix arr len i])
  next
    case False
    then show ?thesis by (simp add: storeLoop.simps [of b prefix arr len i])
  qed
qed

lemma js_lt_mono: "js_lt (Num j) len \<Longrightarrow> i \<le> j \<Longrightarrow> js_lt (Num i) len"
  by (cases len) auto

lemma storeLoop_state_at:
  "i \<le> j \<Longrightarrow> js_lt (Num (int j)) len \<Longrightarrow>
     state (storeLoop b p arr len i) (point_key p j) = Some (parseInt 10 (js_index arr (int j)))"
proof (induction b p arr len i rule: storeLoop.induct)
  case (1 b prefix arr len i)
  have lt: "js_lt (Num (int i)) len" using js_lt_mono [OF 1(3)] 1(2) by simp
  then have unroll: "storeLoop b prefix arr len i
      = storeLoop (storeStep b prefix arr i) prefix arr len (i + 1)"
    by (simp add: storeLoop.simps [of b prefix arr len i])
  show ?case
  proof (cases "i = j")
    case True
    have "state (storeLoop (storeStep b prefix arr i) prefix arr len (i + 1)) (point_key prefix j)
            = state (storeStep b prefix arr i) (point_key prefix j)"
      using True by (intro storeLoop_state_other) (auto dest: point_key_inj)
    then show ?thesis using True unroll by (simp add: storeStep_state)
  next
    case False
    with 1(2) have "i + 1 \<le> j" by simp
    from 1(1) [OF lt this 1(3)] show ?thesis by (simp add: unroll)
  qed
qed

lemma storeLoop_frame:
  "counter (storeLoop b p arr len i) = counter b \<and> groups (storeLoop b p arr len i) = groups b
     \<and> errlog (storeLoop b p arr len i) = errlog b"
proof (induction b p arr len i rule: storeLoop.induct)
  case (1 b prefix arr len i)
  then show ?case
    by (cases "js_lt (Num (int i)) len") (simp_all add: storeLoop.simps [of b prefix arr len i] storeStep_frame)
qed

lemma ran_upd_subset: "ran m \<subseteq> S \<Longrightarrow> v \<in> S \<Longrightarrow> ran (m(k \<mapsto> v)) \<subseteq> S"
  by (auto simp: ran_def)

lemma storeLoop_ran:
  "ran (state b) \<subseteq> S \<Longrightarrow> (\<And>j. i \<le> j \<Longrightarrow> js_lt (Num (int j)) len \<Longrightarrow> parseInt 10 (js_index arr (int j)) \<in> S)
     \<Longrightarrow> ran (state (storeLoop b p arr len i)) \<subseteq> S"
proof (induction b p arr len i rule: storeLoop.induct)
  case (1 b prefix arr len i)
  show ?case
  proof (cases "js_lt (Num (int i)) len")
    case True
    have "ran (state (storeStep b prefix arr i)) \<subseteq> S"
      using 1(2) 1(3) [of i] True by (simp add: storeStep_state ran_upd_subset)
    from 1(1) [OF True this] 1(3) True show ?thesis
      by (simp add: storeLoop.simps [of b prefix arr len i])
  next
    case False
    with 1(2) show ?thesis by (simp add: storeLoop.simps [of b prefix arr len i])
  qed
qed

lemma bit_unat_div: "(unat (w :: 16 word) div 2 ^ i mod 2) = (if bit w i then 1 else 0)"
proof -
  have "bit w i \<longleftrightarrow> bit (unat w) i" by (simp add: bit_unsigned_iff)
  also have "\<dots> \<longleftrightarrow> odd (unat w div 2 ^ i)" by (rule bit_iff_odd)
  finally show ?thesis by (auto simp: odd_iff_mod_2_eq_one)
qed


lemma storeState_zero: "storeState b p v (Num 0) = b"
  by (simp add: storeState_def storeLoop.simps [of b p "decode v" "Num 0" 0])

lemma uint_and_1: "uint ((v :: 16 word) AND 1) = (if bit v 0 then 1 else 0)"
  by (simp add: and_one_eq mod_2_eq_odd bit_0)

lemma decode_word_parse:
  "i < 16 \<Longrightarrow>
     parseInt 10 (js_index (decode (Some (Num (uint (v :: 16 word))))) (int i))
       = Num (if bit v i then 1 else 0)"
proof -
  assume i: "i < 16"
  have u: "uint v = int (unat v)" by (rule uint_nat)
  show ?thesis unfolding u decode_parse [OF i] bit_unat_div by simp
qed

lemma errno_key_NaN: "errno_key msg = NaN"
  by (simp add: errno_key_def js_index_def parseInt_def)

lemma report_raw: "report b msg = b\<lparr>errlog := errlog b @ [RawError msg]\<rparr>"
  by (simp add: report_def errno_key_NaN MODUS_ERRNO_def)

lemma report_state: "state (report b msg) = state b"
  by (simp add: report_raw)

lemma getState_point:
  "getState b (point_key p i) =
     (case state b (point_key p i) of Some v \<Rightarrow> Own v | None \<Rightarrow> Undefined)"
  by (simp add: getState_def prop_get_dot point_key_dot)

lemma word_at_some: "k < length d \<Longrightarrow> word_at d k = Some (Num (uint (d ! k)))"
  by (simp add: word_at_def js_index_def)

section \<open>Capability discovery\<close>

text \<open>
  Claim C1, as the code has it. \<open>dec2bin\<close> writes the most significant bit first, and
  the constructor cuts that string from the left. So for every pair of capability words the
  callback records: the digital-input count from bits 8 to 15 of the first word and the
  digital-output count from its bits 0 to 7; the serial-port count from bits 12 to 15 of
  the second word, the analog-input count from its bits 8 to 11 and the analog-output
  count from its bits 0 to 7 (bit 0 the least significant).
\<close>

theorem capability_word_layout:
  "discovered b i (Inr [w0, w1]) =
     b\<lparr>groups := assign_slot (groups b) i
        \<lparr>g_id = int i + 1,
         g_di = Num (uint (drop_bit 8 w0)),
         g_do = Num (uint (take_bit 8 w0)),
         g_ai = Num (uint (take_bit 4 (drop_bit 8 w1))),
         g_ao = Num (uint (take_bit 8 w1)),
         g_serial = Num (uint (drop_bit 12 w1))\<rparr>\<rparr>"
  by (simp only: discovered_def sum.case decode_group_bits)

theorem capability_word_layout_witness:
  "discovered new_board 0 (Inr [0x0804, 0x1234]) =
     new_board\<lparr>groups :=
       [Some \<lparr>g_id = 1, g_di = Num 8, g_do = Num 4, g_ai = Num 2, g_ao = Num 0x34,
              g_serial = Num 1\<rparr>]\<rparr>"
  using capability_word_layout [of new_board 0 "0x0804" "0x1234"]
  by (simp add: assign_slot_def new_board_def)

text \<open>
  Claim C1 as it is written puts the input count in bits 0 to 7 and the output count in
  bits 8 to 15 of the first word, and the serial count in bits 0 to 3 of the second. For
  the words 0x0804 and 0x1234 the code records none of the three.
\<close>

theorem capability_low_bits_counterexample:
  "g_di (decode_group 0 [0x0804, 0x1234]) \<noteq> Num (uint (take_bit 8 (0x0804 :: 16 word))) \<and>
   g_do (decode_group 0 [0x0804, 0x1234]) \<noteq> Num (uint (drop_bit 8 (0x0804 :: 16 word))) \<and>
   g_serial (decode_group 0 [0x0804, 0x1234]) \<noteq> Num (uint (take_bit 4 (0x1234 :: 16 word)))"
  by (simp add: decode_group_bits)

section \<open>Writing a point\<close>

lemma split_on_no_sep: "c \<notin> set s \<Longrightarrow> split_on c s = [s]"
  by (induction s) auto

lemma split_on_append: "c \<notin> set a \<Longrightarrow> split_on c (a @ c # s) = a # split_on c s"
  by (induction a) auto

lemma digits_no_dot: "CHR ''.'' \<notin> set (digits 10 n)"
proof
  assume "CHR ''.'' \<in> set (digits 10 n)"
  moreover have "list_all (is_digit 10) (digits 10 n)" by (simp add: digits_all)
  ultimately have "is_digit 10 CHR ''.''" by (simp add: list_all_iff)
  then show False by (simp add: is_digit_def digit_val_def)
qed

lemma digits_single: "g < 10 \<Longrightarrow> digits 10 g = [digit_char g]"
  by (simp add: digits.simps [of 10 g])

lemma toNumber_str_digits:
  "length (digits 10 n) \<le> 15 \<Longrightarrow> toNumber_str (digits 10 n) = Some (Num (int n))"
  by (simp add: toNumber_str_def digits_nonempty digits_all digits_value)

lemma coilId_point:
  assumes "CHR ''.'' \<notin> set p" "g < 10" "length (digits 10 n) \<le> 15"
  shows "coilId (p @ digits 10 g @ ''.'' @ digits 10 n) = Some (Num ((int g - 1) * 100 + (int n - 1)))"
proof -
  have s: "split_on CHR ''.'' (p @ digits 10 g @ CHR ''.'' # digits 10 n) = [p @ digits 10 g, digits 10 n]"
    using split_on_append [of "CHR ''.''" "p @ digits 10 g" "digits 10 n"] assms(1)
    by (simp add: digits_no_dot split_on_no_sep)
  have l: "last_char (p @ digits 10 g) = digits 10 g"
    using assms(2) by (simp add: last_char_def digits_single)
  have g: "toNumber_str (digits 10 g) = Some (Num (int g))"
    using assms(2) by (intro toNumber_str_digits) (simp add: digits_single)
  show ?thesis
    by (simp add: coilId_def s l g toNumber_str_digits [OF assms(3)] js_index_def Let_def)
qed

text \<open>
  Claim C2, as the code has it. A call \<open>set(id, value, retries)\<close> fails with the unknown-id
  error, writing no coil, when \<open>id\<close> is neither a key of the cache nor one of the names
  every object inherits. When \<open>id\<close> is a key of the cache of the form prefix, group,
  dot, index, with a prefix free of dots, a group of one decimal digit and an index of at
  most fifteen digits, the call makes one coil write of \<open>value\<close> to address
  \<open>(group - 1) * 100 + (index - 1)\<close>.
\<close>

theorem set_unknown_or_single_write:
  "(state b k = None \<and> k \<notin> set object_prototype_names \<longrightarrow>
      set_board b k v r = Inl (UnknownID k)) \<and>
   (state b (p @ digits 10 g @ ''.'' @ digits 10 n) \<noteq> None \<and> CHR ''.'' \<notin> set p \<and> g < 10 \<and>
    length (digits 10 n) \<le> 15 \<longrightarrow>
      set_board b (p @ digits 10 g @ ''.'' @ digits 10 n) v r =
        Inr ((Some (Num ((int g - 1) * 100 + (int n - 1))), v),
             if r < 5 then Some (100 * (r + 1)) else None))"
proof (intro conjI impI)
  assume "state b k = None \<and> k \<notin> set object_prototype_names"
  then show "set_board b k v r = Inl (UnknownID k)"
    by (simp add: set_board_def validate_def getState_def prop_get_def)
next
  assume a: "state b (p @ digits 10 g @ ''.'' @ digits 10 n) \<noteq> None \<and> CHR ''.'' \<notin> set p \<and> g < 10 \<and>
    length (digits 10 n) \<le> 15"
  then have "getState b (p @ digits 10 g @ ''.'' @ digits 10 n) \<noteq> Undefined"
    by (auto simp: getState_def prop_get_def)
  moreover from a have "coilId (p @ digits 10 g @ ''.'' @ digits 10 n)
      = Some (Num ((int g - 1) * 100 + (int n - 1)))"
    by (intro coilId_point) simp_all
  ultimately show "set_board b (p @ digits 10 g @ ''.'' @ digits 10 n) v r =
        Inr ((Some (Num ((int g - 1) * 100 + (int n - 1))), v),
             if r < 5 then Some (100 * (r + 1)) else None)"
    by (simp add: set_board_def validate_def)
qed

theorem set_unknown_or_single_write_witness:
  "set_board (new_board\<lparr>state := [''DO2.3'' \<mapsto> Num 0]\<rparr>) ''DO9.9'' True 0
      = Inl (UnknownID ''DO9.9'') \<and>
   set_board (new_board\<lparr>state := [''DO2.3'' \<mapsto> Num 0]\<rparr>) ''DO2.3'' True 0
      = Inr ((Some (Num 102), True), Some 100)"
proof -
  have d: "digits 10 2 = ''2''" "digits 10 3 = ''3''" by code_simp+
  show ?thesis
    using set_unknown_or_single_write
      [of "new_board\<lparr>state := [''DO2.3'' \<mapsto> Num 0]\<rparr>" "''DO9.9''" True 0 "''DO''" 2 3]
    by (simp add: d object_prototype_names_def)
qed

text \<open>
  Claim C2 as it is written fails twice. The group is read from the one character before
  the dot, so for group 10 the write goes to address \<open>(0 - 1) * 100 + 0 = - 100\<close>, not
  900. And \<open>toString\<close>, which no poll ever stored, passes \<open>validate\<close>, because the cache
  object inherits it: the call writes a coil at address \<open>NaN\<close> instead of failing.
\<close>

theorem set_address_counterexample:
  "set_board (new_board\<lparr>state := [''DO10.1'' \<mapsto> Num 0]\<rparr>) ''DO10.1'' True 0
      = Inr ((Some (Num (- 100)), True), Some 100) \<and>
   set_board new_board ''toString'' True 0 = Inr ((Some NaN, True), Some 100)"
  by code_simp

lemma set_run_unknown:
  "getState b k = Undefined \<Longrightarrow> set_run obs b k v r = [Throw (UnknownID k)]"
  by (simp add: set_run.simps [of obs b k v r] set_board_def validate_def)

lemma set_run_known:
  "getState b k \<noteq> Undefined \<Longrightarrow>
   set_run obs b k v r =
     WriteCoil (coilId k) v #
     (if r < 5
      then SetTimeout (100 * (r + 1)) #
           (if verify_differs (obs r) k v then Retry (r + 1) # set_run obs (obs r) k v (r + 1) else [])
      else [])"
  by (simp add: set_run.simps [of obs b k v r] set_board_def validate_def)

lemma set_run_writes_le:
  "r \<le> 5 \<Longrightarrow> length (filter is_write (set_run obs b k v r)) \<le> 6 - r"
proof (induction "5 - r" arbitrary: r b)
  case 0
  then have r: "r = 5" by simp
  show ?case
    by (cases "getState b k = Undefined") (simp_all add: set_run_unknown set_run_known r)
next
  case (Suc n)
  then have r: "r < 5" and n: "n = 5 - (r + 1)" "r + 1 \<le> 5" by simp_all
  have ih: "length (filter is_write (set_run obs (obs r) k v (r + 1))) \<le> 6 - (r + 1)"
    using Suc(1) [OF n] .
  show ?case
  proof (cases "getState b k = Undefined")
    case True
    then show ?thesis by (simp add: set_run_unknown)
  next
    case False
    show ?thesis unfolding set_run_known [OF False] using ih r by auto
  qed
qed

lemma set_run_all_differ:
  "r \<le> 5 \<Longrightarrow> getState b k \<noteq> Undefined \<Longrightarrow>
   (\<And>j. r \<le> j \<Longrightarrow> j < 5 \<Longrightarrow> getState (obs j) k \<noteq> Undefined \<and> verify_differs (obs j) k v) \<Longrightarrow>
   length (filter is_write (set_run obs b k v r)) = 6 - r \<and>
   delays (set_run obs b k v r) = map (\<lambda>j. 100 * (j + 1)) [r..<5]"
proof (induction "5 - r" arbitrary: r b)
  case 0
  then have r: "r = 5" by simp
  show ?case using 0(3) by (simp add: set_run_known r)
next
  case (Suc n)
  then have r: "r < 5" and n: "n = 5 - (r + 1)" "r + 1 \<le> 5" by simp_all
  have o: "getState (obs r) k \<noteq> Undefined" "verify_differs (obs r) k v"
    using Suc(5) [of r] r by simp_all
  have ih: "length (filter is_write (set_run obs (obs r) k v (r + 1))) = 6 - (r + 1) \<and>
     delays (set_run obs (obs r) k v (r + 1)) = map (\<lambda>j. 100 * (j + 1)) [r + 1..<5]"
    using Suc(1) [OF n o(1)] Suc(5) by simp
  have u: "[r..<5] = r # [r + 1..<5]" using r by (simp add: upt_conv_Cons)
  show ?case using ih r o Suc(4) by (simp add: set_run_known [of b] u)
qed

lemma set_run_match:
  "r \<le> m \<Longrightarrow> m < 5 \<Longrightarrow> getState b k \<noteq> Undefined \<Longrightarrow>
   (\<And>j. r \<le> j \<Longrightarrow> j < m \<Longrightarrow> getState (obs j) k \<noteq> Undefined \<and> verify_differs (obs j) k v) \<Longrightarrow>
   \<not> verify_differs (obs m) k v \<Longrightarrow>
   length (filter is_write (set_run obs b k v r)) = Suc m - r \<and>
   delays (set_run obs b k v r) = map (\<lambda>j. 100 * (j + 1)) [r..<Suc m]"
proof (induction "m - r" arbitrary: r b)
  case 0
  then have r: "r = m" by simp
  show ?case using 0(3,4,6) by (simp add: set_run_known r)
next
  case (Suc n)
  then have r: "r < m" "r < 5" and n: "n = m - (r + 1)" "r + 1 \<le> m" by simp_all
  have o: "getState (obs r) k \<noteq> Undefined" "verify_differs (obs r) k v"
    using Suc(6) [of r] r by simp_all
  have ih: "length (filter is_write (set_run obs (obs r) k v (Suc r))) = Suc m - Suc r \<and>
     delays (set_run obs (obs r) k v (Suc r)) = map (\<lambda>j. 100 * (j + 1)) [Suc r..<Suc m]"
    using Suc(1) [OF n Suc(4) o(1)] Suc(6) Suc(7) by (simp del: upt_Suc)
  have u: "[r..<Suc m] = r # [Suc r..<Suc m]" using r by (simp add: upt_conv_Cons del: upt_Suc)
  show ?case using ih r o Suc(5) by (simp add: set_run_known [of b] u Suc_diff_le del: upt_Suc)
qed

text \<open>
  Claim C3. A call \<open>set(id, value, 0)\<close> and the timers it leaves behind write the coil at
  most 6 times. If the id stays known and the cache differs from \<open>value\<close> at each of the
  five verifications, there are exactly 6 writes and the verifications were scheduled after
  100, 200, 300, 400 and 500 ms. If the cache first agrees with \<open>value\<close> at verification
  \<open>m\<close>, the write was re-issued at each earlier verification and never after: \<open>m + 1\<close>
  writes, with the delays \<open>100 * (j + 1)\<close> for \<open>j = 0, ..., m\<close>.
\<close>

theorem set_retry_schedule:
  "length (filter is_write (set_run obs b k v 0)) \<le> 6 \<and>
   (getState b k \<noteq> Undefined \<and> (\<forall>j<5. getState (obs j) k \<noteq> Undefined \<and> verify_differs (obs j) k v) \<longrightarrow>
      length (filter is_write (set_run obs b k v 0)) = 6 \<and>
      delays (set_run obs b k v 0) = [100, 200, 300, 400, 500]) \<and>
   (getState b k \<noteq> Undefined \<and> m < 5 \<and>
    (\<forall>j<m. getState (obs j) k \<noteq> Undefined \<and> verify_differs (obs j) k v) \<and>
    \<not> verify_differs (obs m) k v \<longrightarrow>
      length (filter is_write (set_run obs b k v 0)) = m + 1 \<and>
      delays (set_run obs b k v 0) = map (\<lambda>j. 100 * (j + 1)) [0..<m + 1])"
proof (intro conjI impI)
  show "length (filter is_write (set_run obs b k v 0)) \<le> 6"
    using set_run_writes_le [of 0 obs b k v] by simp
next
  assume a: "getState b k \<noteq> Undefined \<and> (\<forall>j<5. getState (obs j) k \<noteq> Undefined \<and> verify_differs (obs j) k v)"
  have u: "[0..<5] = [0, 1, 2, 3, 4::nat]" by code_simp
  from a have "length (filter is_write (set_run obs b k v 0)) = 6 - 0 \<and>
      delays (set_run obs b k v 0) = map (\<lambda>j. 100 * (j + 1)) [0..<5]"
    by (intro set_run_all_differ) simp_all
  then show "length (filter is_write (set_run obs b k v 0)) = 6"
    and "delays (set_run obs b k v 0) = [100, 200, 300, 400, 500]"
    by (simp_all add: u)
next
  assume a: "getState b k \<noteq> Undefined \<and> m < 5 \<and>
    (\<forall>j<m. getState (obs j) k \<noteq> Undefined \<and> verify_differs (obs j) k v) \<and>
    \<not> verify_differs (obs m) k v"
  then have "length (filter is_write (set_run obs b k v 0)) = Suc m - 0 \<and>
      delays (set_run obs b k v 0) = map (\<lambda>j. 100 * (j + 1)) [0..<Suc m]"
    by (intro set_run_match) simp_all
  then show "length (filter is_write (set_run obs b k v 0)) = m + 1"
    and "delays (set_run obs b k v 0) = map (\<lambda>j. 100 * (j + 1)) [0..<m + 1]"
    by (simp_all del: upt_Suc)
qed

theorem set_retry_schedule_witness:
  "length (filter is_write
      (set_run (\<lambda>k. new_board\<lparr>state := [''DO1.1'' \<mapsto> Num 0]\<rparr>)
         (new_board\<lparr>state := [''DO1.1'' \<mapsto> Num 0]\<rparr>) ''DO1.1'' True 0)) = 6 \<and>
   delays (set_run (\<lambda>k. new_board\<lparr>state := [''DO1.1'' \<mapsto> Num 0]\<rparr>)
         (new_board\<lparr>state := [''DO1.1'' \<mapsto> Num 0]\<rparr>) ''DO1.1'' True 0)
     = [100, 200, 300, 400, 500] \<and>
   length (filter is_write
      (set_run (\<lambda>k. new_board\<lparr>state := [''DO1.1'' \<mapsto> Num (if k < 2 then 0 else 1)]\<rparr>)
         (new_board\<lparr>state := [''DO1.1'' \<mapsto> Num 0]\<rparr>) ''DO1.1'' True 0)) = 3"
proof -
  let ?b = "new_board\<lparr>state := [''DO1.1'' \<mapsto> Num 0]\<rparr>"
  have 1: "length (filter is_write (set_run (\<lambda>k. ?b) ?b ''DO1.1'' True 0)) = 6 \<and>
   delays (set_run (\<lambda>k. ?b) ?b ''DO1.1'' True 0) = [100, 200, 300, 400, 500]"
    using set_retry_schedule [of "\<lambda>k. ?b" ?b "''DO1.1''" True 0]
    by (simp add: getState_def prop_get_def verify_differs_def)
  have 2: "length (filter is_write
      (set_run (\<lambda>k. new_board\<lparr>state := [''DO1.1'' \<mapsto> Num (if k < 2 then 0 else 1)]\<rparr>)
         ?b ''DO1.1'' True 0)) = 3"
    using set_retry_schedule
      [of "\<lambda>k. new_board\<lparr>state := [''DO1.1'' \<mapsto> Num (if k < 2 then 0 else 1)]\<rparr>"
          ?b "''DO1.1''" True 2]
    by (simp add: getState_def prop_get_def verify_differs_def)
  from 1 2 show ?thesis by simp
qed

section \<open>The state cache\<close>

text \<open>
  Claim C4, as the code has it. For every point id (a prefix, a dot and an index) and every
  value \<open>v\<close>, the conditional update does this: if the id is absent, \<open>v\<close> is stored and
  nothing is emitted; if the id holds a different value, \<open>v\<close> is stored and one update
  with the id and \<open>v\<close> as a string is emitted; if the id holds \<open>v\<close> and \<open>v\<close> is a number,
  the board is left as it is; and for a number \<open>v\<close> a second call with \<open>v\<close> changes
  nothing after the first.
\<close>

theorem store_entry_cases:
  "(state b (point_key p i) = None \<longrightarrow>
      store_entry b (point_key p i) v = b\<lparr>state := (state b)(point_key p i \<mapsto> v)\<rparr>) \<and>
   (state b (point_key p i) = Some c \<and> c \<noteq> v \<longrightarrow>
      store_entry b (point_key p i) v =
        b\<lparr>state := (state b)(point_key p i \<mapsto> v),
           updates := updates b @ [(point_key p i, num_toString 10 v)]\<rparr>) \<and>
   (state b (point_key p i) = Some v \<and> v \<noteq> NaN \<longrightarrow> store_entry b (point_key p i) v = b) \<and>
   (v \<noteq> NaN \<longrightarrow>
      store_entry (store_entry b (point_key p i) v) (point_key p i) v = store_entry b (point_key p i) v)"
proof (intro conjI impI)
  assume "state b (point_key p i) = None"
  then show "store_entry b (point_key p i) v = b\<lparr>state := (state b)(point_key p i \<mapsto> v)\<rparr>"
    by (simp add: store_entry_def getState_point Let_def prop_set_dot point_key_dot)
next
  assume "state b (point_key p i) = Some c \<and> c \<noteq> v"
  then show "store_entry b (point_key p i) v =
        b\<lparr>state := (state b)(point_key p i \<mapsto> v),
           updates := updates b @ [(point_key p i, num_toString 10 v)]\<rparr>"
    by (auto simp: store_entry_def getState_point Let_def prop_set_dot point_key_dot strict_neq_iff)
next
  assume "state b (point_key p i) = Some v \<and> v \<noteq> NaN"
  then show "store_entry b (point_key p i) v = b"
    by (cases v) (simp_all add: store_entry_def getState_point Let_def)
next
  assume n: "v \<noteq> NaN"
  have "state (store_entry b (point_key p i) v) (point_key p i) = Some v"
    by (simp add: store_entry_state point_key_dot)
  then have g: "getState (store_entry b (point_key p i) v) (point_key p i) = Own v"
    by (simp add: getState_point)
  have "\<not> strict_neq (Own v) v" using n by (cases v) simp_all
  then show "store_entry (store_entry b (point_key p i) v) (point_key p i) v = store_entry b (point_key p i) v"
    by (simp add: store_entry_def [of "store_entry b (point_key p i) v"] g)
qed

theorem store_entry_cases_witness:
  "store_entry new_board ''DI1.1'' (Num 1) = new_board\<lparr>state := [''DI1.1'' \<mapsto> Num 1]\<rparr> \<and>
   store_entry (new_board\<lparr>state := [''DI1.1'' \<mapsto> Num 1]\<rparr>) ''DI1.1'' (Num 0)
      = new_board\<lparr>state := [''DI1.1'' \<mapsto> Num 0], updates := [(''DI1.1'', ''0'')]\<rparr> \<and>
   store_entry (new_board\<lparr>state := [''DI1.1'' \<mapsto> Num 0]\<rparr>) ''DI1.1'' (Num 0)
      = new_board\<lparr>state := [''DI1.1'' \<mapsto> Num 0]\<rparr> \<and>
   store_entry (store_entry (new_board\<lparr>state := [''DI1.1'' \<mapsto> Num 1]\<rparr>) ''DI1.1'' (Num 0))
       ''DI1.1'' (Num 0)
      = store_entry (new_board\<lparr>state := [''DI1.1'' \<mapsto> Num 1]\<rparr>) ''DI1.1'' (Num 0)"
proof -
  have k: "point_key ''DI1'' 0 = ''DI1.1''" by code_simp
  have z: "num_toString 10 (Num 0) = ''0''" by code_simp
  have "store_entry new_board ''DI1.1'' (Num 1) = new_board\<lparr>state := [''DI1.1'' \<mapsto> Num 1]\<rparr>"
    using store_entry_cases [of new_board "''DI1''" 0 "Num 1" "Num 1"]
    unfolding k by (simp add: new_board_def)
  moreover have "store_entry (new_board\<lparr>state := [''DI1.1'' \<mapsto> Num 1]\<rparr>) ''DI1.1'' (Num 0)
      = new_board\<lparr>state := [''DI1.1'' \<mapsto> Num 0], updates := [(''DI1.1'', ''0'')]\<rparr>"
    using store_entry_cases
      [of "new_board\<lparr>state := [''DI1.1'' \<mapsto> Num 1]\<rparr>" "''DI1''" 0 "Num 0" "Num 1"]
    unfolding k z by (simp add: new_board_def)
  moreover have "store_entry (new_board\<lparr>state := [''DI1.1'' \<mapsto> Num 0]\<rparr>) ''DI1.1'' (Num 0)
      = new_board\<lparr>state := [''DI1.1'' \<mapsto> Num 0]\<rparr>"
    using store_entry_cases
      [of "new_board\<lparr>state := [''DI1.1'' \<mapsto> Num 0]\<rparr>" "''DI1''" 0 "Num 0" "Num 0"]
    unfolding k by simp
  moreover have
    "store_entry (store_entry (new_board\<lparr>state := [''DI1.1'' \<mapsto> Num 1]\<rparr>) ''DI1.1'' (Num 0))
       ''DI1.1'' (Num 0)
      = store_entry (new_board\<lparr>state := [''DI1.1'' \<mapsto> Num 1]\<rparr>) ''DI1.1'' (Num 0)"
    using store_entry_cases
      [of "new_board\<lparr>state := [''DI1.1'' \<mapsto> Num 1]\<rparr>" "''DI1''" 0 "Num 0" "Num 1"]
      jsnum.distinct(1) [of 0]
    unfolding k by blast
  ultimately show ?thesis by (intro conjI)
qed

text \<open>
  Claim C4 as it is written covers every value. The value decoded for a bit index of 16 or
  more is \<open>NaN\<close>, which \<open>!==\<close> finds different from itself: once \<open>storeState\<close> has
  run with length 17, key 17 holds \<open>NaN\<close>, the update with the same value emits a
  notification, and so does a second identical call of \<open>storeState\<close>.
\<close>

theorem store_entry_NaN_counterexample:
  "state (storeState new_board ''DI1'' (Some (Num 0)) (Num 17)) ''DI1.17'' = Some NaN \<and>
   updates (store_entry (storeState new_board ''DI1'' (Some (Num 0)) (Num 17)) ''DI1.17'' NaN)
      = [(''DI1.17'', ''NaN'')] \<and>
   updates (storeState (storeState new_board ''DI1'' (Some (Num 0)) (Num 17))
              ''DI1'' (Some (Num 0)) (Num 17))
      = [(''DI1.17'', ''NaN'')]"
  by code_simp

text \<open>
  Claim C5. For every 16-bit register value \<open>v\<close>, the decode step of \<open>storeState\<close> yields
  16 entries, of which entry 0 parses to \<open>v AND 1\<close> and entry 15 to the most significant
  bit of \<open>v\<close>; and for every \<open>i\<close> below 16 that the loop reaches, bit \<open>i\<close> of \<open>v\<close> is what
  the cache holds under index \<open>i + 1\<close> afterwards.
\<close>

theorem decode_bit_order:
  "length (decode (Some (Num (uint (v :: 16 word))))) = 16 \<and>
   (\<forall>i<16. parseInt 10 (js_index (decode (Some (Num (uint v)))) (int i))
      = Num (if bit v i then 1 else 0)) \<and>
   parseInt 10 (js_index (decode (Some (Num (uint v)))) 0) = Num (uint (v AND 1)) \<and>
   parseInt 10 (js_index (decode (Some (Num (uint v)))) 15) = Num (if bit v 15 then 1 else 0) \<and>
   (\<forall>i<16. js_lt (Num (int i)) len \<longrightarrow>
      state (storeState b p (Some (Num (uint v))) len) (point_key p i)
        = Some (Num (if bit v i then 1 else 0)))"
proof -
  have u: "uint v = int (unat v)" by (rule uint_nat)
  have 1: "length (decode (Some (Num (uint v)))) = 16" unfolding u by (rule length_decode)
  have 2: "\<forall>i<16. parseInt 10 (js_index (decode (Some (Num (uint v)))) (int i))
      = Num (if bit v i then 1 else 0)"
    by (simp add: decode_word_parse)
  have 3: "parseInt 10 (js_index (decode (Some (Num (uint v)))) 0) = Num (uint (v AND 1))"
    using decode_word_parse [of 0 v] by (simp add: uint_and_1)
  have 4: "parseInt 10 (js_index (decode (Some (Num (uint v)))) 15) = Num (if bit v 15 then 1 else 0)"
    using decode_word_parse [of 15 v] by simp
  have 5: "\<forall>i<16. js_lt (Num (int i)) len \<longrightarrow>
      state (storeState b p (Some (Num (uint v))) len) (point_key p i)
        = Some (Num (if bit v i then 1 else 0))"
    by (simp add: storeState_def storeLoop_state_at decode_word_parse)
  from 1 2 3 4 5 show ?thesis by (intro conjI)
qed

theorem decode_bit_order_witness:
  "parseInt 10 (js_index (decode (Some (Num (uint (5 :: 16 word))))) 0) = Num 1 \<and>
   state (storeState new_board ''DI1'' (Some (Num (uint (5 :: 16 word)))) (Num 8)) ''DI1.1''
     = Some (Num 1)"
proof -
  have k: "point_key ''DI1'' 0 = ''DI1.1''" by code_simp
  have a: "(5 :: 16 word) AND 1 = 1" by simp
  have "\<forall>i<16. js_lt (Num (int i)) (Num 8) \<longrightarrow>
      state (storeState new_board ''DI1'' (Some (Num (uint (5 :: 16 word)))) (Num 8))
        (point_key ''DI1'' i)
        = Some (Num (if bit (5 :: 16 word) i then 1 else 0))"
    and "parseInt 10 (js_index (decode (Some (Num (uint (5 :: 16 word))))) 0)
        = Num (uint ((5 :: 16 word) AND 1))"
    using decode_bit_order [of 5 "Num 8" new_board "''DI1''"] by blast+
  from this(1) [rule_format, of 0] this(2) show ?thesis unfolding k a by (simp add: bit_0)
qed

section \<open>Transport errors\<close>

text \<open>
  Claim C6 does not hold of the code. The key looked up in the table is
  \<open>parseInt(err.message.split(' ')[-1])\<close>, and index \<open>-1\<close> of an array is \<open>undefined\<close>, so
  the key is \<open>NaN\<close> for every message (\<open>errno_key_NaN\<close>) and the raw error is logged
  always (\<open>report_raw\<close>): the table has a description for code 2, and the error whose
  message ends in 2 is still logged raw.
\<close>

theorem error_table_never_applied:
  "MODUS_ERRNO (Num 2) = Some ''Illegal Data Address'' \<and>
   errno_key msg = NaN \<and>
   report b msg = b\<lparr>errlog := errlog b @ [RawError msg]\<rparr> \<and>
   errlog (report new_board ''Modbus exception 2'') = [RawError ''Modbus exception 2'']"
  by (simp add: MODUS_ERRNO_def errno_key_NaN report_raw new_board_def)

text \<open>
  Claim C9. The callback of a states read that failed leaves the state cache as it was,
  for every key of every group; the counters, the groups and the notifications emitted
  are unchanged too (the error is logged).
\<close>

theorem failed_read_keeps_cache:
  "state (updateState_cb b g (Inl msg)) = state b \<and> counter (updateState_cb b g (Inl msg)) = counter b \<and>
   groups (updateState_cb b g (Inl msg)) = groups b \<and> updates (updateState_cb b g (Inl msg)) = updates b"
  by (simp add: updateState_cb_def report_def split: option.splits)

theorem failed_read_keeps_cache_witness:
  "state (updateState_cb (new_board\<lparr>state := [''DI1.1'' \<mapsto> Num 1, ''DI3.1'' \<mapsto> Num 0]\<rparr>)
      \<lparr>g_id = 2, g_di = Num 8, g_do = Num 4, g_ai = Num 0, g_ao = Num 0, g_serial = Num 0\<rparr>
      (Inl ''Timed out''))
    = [''DI1.1'' \<mapsto> Num 1, ''DI3.1'' \<mapsto> Num 0]"
  using failed_read_keeps_cache
    [of "new_board\<lparr>state := [''DI1.1'' \<mapsto> Num 1, ''DI3.1'' \<mapsto> Num 0]\<rparr>"
        "\<lparr>g_id = 2, g_di = Num 8, g_do = Num 4, g_ai = Num 0, g_ao = Num 0, g_serial = Num 0\<rparr>"
        "''Timed out''"]
  by simp

section \<open>Counters\<close>

lemma updateCount_loop_nth:
  "i < length gs \<Longrightarrow> (\<And>k. k \<le> i \<Longrightarrow> gs ! k \<noteq> None) \<Longrightarrow> gs ! i = Some g \<Longrightarrow>
   i < length (fst (updateCount_loop s gs)) \<and>
   fst (updateCount_loop s gs) ! i =
     Read (map_option Num (js_index countStart (int (s + i)))) (js_mul (g_di g) (Num 2)) g"
proof (induction gs arbitrary: s i)
  case Nil
  then show ?case by simp
next
  case (Cons a gs)
  from Cons(3) [of 0] obtain g0 where a: "a = Some g0" by auto
  show ?case
  proof (cases i)
    case 0
    with Cons(4) a show ?thesis by (simp add: split_beta)
  next
    case (Suc i')
    have "i' < length gs" using Cons(2) Suc by simp
    moreover have "\<And>k. k \<le> i' \<Longrightarrow> gs ! k \<noteq> None" using Cons(3) [of "Suc _"] Suc by simp
    moreover have "gs ! i' = Some g" using Cons(4) Suc by simp
    ultimately have "i' < length (fst (updateCount_loop (s + 1) gs)) \<and>
      fst (updateCount_loop (s + 1) gs) ! i' =
        Read (map_option Num (js_index countStart (int (s + 1 + i')))) (js_mul (g_di g) (Num 2)) g"
      by (rule Cons(1))
    then show ?thesis using a Suc by (simp add: split_beta)
  qed
qed

lemma countLoop_counter_other:
  "(\<And>j. j0 \<le> j \<Longrightarrow> k \<noteq> point_key (''DI'' @ num_toString 10 (Num (g_id g))) j) \<Longrightarrow>
   counter (countLoop b g d j0) k = counter b k"
proof (induction b g d j0 rule: countLoop.induct)
  case (1 b g d j)
  show ?case
  proof (cases "js_lt (Num (int j)) (g_di g)")
    case True
    let ?b = "b\<lparr>counter := prop_set (counter b)
                   (point_key (''DI'' @ num_toString 10 (Num (g_id g))) j) (counter_value d j)\<rparr>"
    have "counter (countLoop ?b g d (j + 1)) k = counter ?b k"
      using 1(1) [OF True] 1(2) by simp
    also have "\<dots> = counter b k" using 1(2) [of j] by (simp add: prop_set_dot point_key_dot)
    finally show ?thesis using True by (simp add: countLoop.simps [of b g d j])
  next
    case False
    then show ?thesis by (simp add: countLoop.simps [of b g d j])
  qed
qed

lemma countLoop_counter_at:
  "j0 \<le> j \<Longrightarrow> js_lt (Num (int j)) (g_di g) \<Longrightarrow>
   counter (countLoop b g d j0) (point_key (''DI'' @ num_toString 10 (Num (g_id g))) j) = Some (counter_value d j)"
proof (induction b g d j0 rule: countLoop.induct)
  case (1 b g d i)
  let ?b = "b\<lparr>counter := prop_set (counter b)
                   (point_key (''DI'' @ num_toString 10 (Num (g_id g))) i) (counter_value d i)\<rparr>"
  have lt: "js_lt (Num (int i)) (g_di g)" using js_lt_mono [OF 1(3)] 1(2) by simp
  then have unroll: "countLoop b g d i = countLoop ?b g d (i + 1)"
    by (simp add: countLoop.simps [of b g d i])
  show ?case
  proof (cases "i = j")
    case True
    have "counter (countLoop ?b g d (i + 1)) (point_key (''DI'' @ num_toString 10 (Num (g_id g))) j)
            = counter ?b (point_key (''DI'' @ num_toString 10 (Num (g_id g))) j)"
      using True by (intro countLoop_counter_other) (auto dest: point_key_inj)
    then show ?thesis using True unroll by (simp add: prop_set_dot point_key_dot)
  next
    case False
    with 1(2) have "i + 1 \<le> j" by simp
    from 1(1) [OF lt this 1(3)] show ?thesis by (simp add: unroll)
  qed
qed

lemma counter_value_sum:
  "j * 2 + 1 < length d \<Longrightarrow> counter_value d j = Num (uint (d ! (j * 2)) + uint (d ! (j * 2 + 1)))"
proof -
  assume a: "j * 2 + 1 < length d"
  then have b: "j * 2 < length d" by simp
  show ?thesis
    by (simp only: counter_value_def word_at_some [OF a] word_at_some [OF b] toNumber_opt_def option.case js_add.simps)
qed

text \<open>
  Claim C7, as the code has it. The table of base addresses has three entries, and the loop
  of \<open>updateCount\<close> stops at the first slot that is a hole. For a slot \<open>i\<close> below 3 such
  that the slots up to \<open>i\<close> all hold a group, the read issued for slot \<open>i\<close> starts at entry
  \<open>i\<close> of 8, 103, 203 and asks for twice the group's input count. Its callback stores,
  for every input \<open>j\<close> below that count, under key DI, group id, dot, \<open>j + 1\<close>, the sum
  \<open>data[2j] + data[2j + 1]\<close>, which is the integer sum of the two words when both were
  delivered.
\<close>

theorem updateCount_reads_and_sums:
  "(i < 3 \<and> i < length (groups b) \<and> (\<forall>k\<le>i. groups b ! k \<noteq> None) \<and> groups b ! i = Some g \<longrightarrow>
      i < length (fst (updateCount b)) \<and>
      fst (updateCount b) ! i = Read (Some (Num ([8, 103, 203] ! i))) (js_mul (g_di g) (Num 2)) g) \<and>
   (js_lt (Num (int j)) (g_di g) \<longrightarrow>
      counter (updateCount_cb b g (Inr d)) (point_key (''DI'' @ num_toString 10 (Num (g_id g))) j)
        = Some (counter_value d j)) \<and>
   (j * 2 + 1 < length d \<longrightarrow>
      counter_value d j = Num (uint (d ! (j * 2)) + uint (d ! (j * 2 + 1))))"
proof (intro conjI impI)
  assume a: "i < 3 \<and> i < length (groups b) \<and> (\<forall>k\<le>i. groups b ! k \<noteq> None) \<and> groups b ! i = Some g"
  then have "i < length (fst (updateCount_loop 0 (groups b))) \<and>
   fst (updateCount_loop 0 (groups b)) ! i =
     Read (map_option Num (js_index countStart (int (0 + i)))) (js_mul (g_di g) (Num 2)) g"
    by (intro updateCount_loop_nth) simp_all
  moreover have "js_index countStart (int i) = Some ([8, 103, 203] ! i)"
    using a by (simp add: js_index_def countStart_def)
  ultimately show "i < length (fst (updateCount b))"
    and "fst (updateCount b) ! i = Read (Some (Num ([8, 103, 203] ! i))) (js_mul (g_di g) (Num 2)) g"
    by (simp_all add: updateCount_def)
next
  assume "js_lt (Num (int j)) (g_di g)"
  then show "counter (updateCount_cb b g (Inr d)) (point_key (''DI'' @ num_toString 10 (Num (g_id g))) j)
        = Some (counter_value d j)"
    by (simp only: updateCount_cb_def sum.case) (rule countLoop_counter_at, simp_all)
next
  assume "j * 2 + 1 < length d"
  then show "counter_value d j = Num (uint (d ! (j * 2)) + uint (d ! (j * 2 + 1)))"
    by (rule counter_value_sum)
qed

theorem updateCount_reads_and_sums_witness:
  "fst (updateCount (new_board\<lparr>groups :=
       [Some \<lparr>g_id = 1, g_di = Num 8, g_do = Num 4, g_ai = Num 0, g_ao = Num 0, g_serial = Num 0\<rparr>,
        Some \<lparr>g_id = 2, g_di = Num 8, g_do = Num 4, g_ai = Num 0, g_ao = Num 0, g_serial = Num 0\<rparr>]\<rparr>)) ! 1
      = Read (Some (Num 103)) (Num 16)
          \<lparr>g_id = 2, g_di = Num 8, g_do = Num 4, g_ai = Num 0, g_ao = Num 0, g_serial = Num 0\<rparr> \<and>
   counter (updateCount_cb new_board
       \<lparr>g_id = 1, g_di = Num 2, g_do = Num 4, g_ai = Num 0, g_ao = Num 0, g_serial = Num 0\<rparr>
       (Inr [1, 2, 3, 4])) ''DI1.2'' = Some (Num 7)"
proof -
  let ?g1 = "\<lparr>g_id = 1, g_di = Num 8, g_do = Num 4, g_ai = Num 0, g_ao = Num 0, g_serial = Num 0\<rparr>"
  let ?g2 = "\<lparr>g_id = 2, g_di = Num 8, g_do = Num 4, g_ai = Num 0, g_ao = Num 0, g_serial = Num 0\<rparr>"
  let ?h = "\<lparr>g_id = 1, g_di = Num 2, g_do = Num 4, g_ai = Num 0, g_ao = Num 0, g_serial = Num 0\<rparr>"
  have k: "point_key (''DI'' @ num_toString 10 (Num (g_id ?h))) 1 = ''DI1.2''" by code_simp
  have "fst (updateCount (new_board\<lparr>groups := [Some ?g1, Some ?g2]\<rparr>)) ! 1
      = Read (Some (Num 103)) (Num 16) ?g2"
    using updateCount_reads_and_sums [of 1 "new_board\<lparr>groups := [Some ?g1, Some ?g2]\<rparr>" ?g2]
    by (simp add: le_Suc_eq)
  moreover have "counter (updateCount_cb new_board ?h (Inr [1, 2, 3, 4])) ''DI1.2'' = Some (Num 7)"
  proof -
    have "js_lt (Num (int 1)) (g_di ?h)" by simp
    moreover have "1 * 2 + 1 < length [1, 2, 3, 4 :: 16 word]" by simp
    ultimately have "counter (updateCount_cb new_board ?h (Inr [1, 2, 3, 4]))
        (point_key (''DI'' @ num_toString 10 (Num (g_id ?h))) 1) = Some (counter_value [1, 2, 3, 4] 1)"
      and "counter_value [1, 2, 3, 4 :: 16 word] 1
        = Num (uint ([1, 2, 3, 4 :: 16 word] ! (1 * 2)) + uint ([1, 2, 3, 4 :: 16 word] ! (1 * 2 + 1)))"
      using updateCount_reads_and_sums
        [where b = new_board and g = ?h and j = 1 and d = "[1, 2, 3, 4]"] by blast+
    then show ?thesis unfolding k by simp
  qed
  ultimately show ?thesis by simp
qed

text \<open>
  Claim C7 as it is written gives every group slot a base address from the table. With
  four groups the read for slot 3 is issued with an \<open>undefined\<close> start address; and when
  slot 0 is a hole, no read is issued for the discovered slot 1, the loop having ended in
  a \<open>TypeError\<close>.
\<close>

theorem updateCount_base_counterexample:
  "fst (updateCount (new_board\<lparr>groups :=
       [Some \<lparr>g_id = 1, g_di = Num 8, g_do = Num 4, g_ai = Num 0, g_ao = Num 0, g_serial = Num 0\<rparr>,
        Some \<lparr>g_id = 2, g_di = Num 8, g_do = Num 4, g_ai = Num 0, g_ao = Num 0, g_serial = Num 0\<rparr>,
        Some \<lparr>g_id = 3, g_di = Num 8, g_do = Num 4, g_ai = Num 0, g_ao = Num 0, g_serial = Num 0\<rparr>,
        Some \<lparr>g_id = 4, g_di = Num 8, g_do = Num 4, g_ai = Num 0, g_ao = Num 0, g_serial = Num 0\<rparr>]\<rparr>)) ! 3
      = Read None (Num 16)
          \<lparr>g_id = 4, g_di = Num 8, g_do = Num 4, g_ai = Num 0, g_ao = Num 0, g_serial = Num 0\<rparr> \<and>
   updateCount (new_board\<lparr>groups :=
       [None,
        Some \<lparr>g_id = 2, g_di = Num 8, g_do = Num 4, g_ai = Num 0, g_ao = Num 0, g_serial = Num 0\<rparr>]\<rparr>)
      = ([], Some TypeError)"
  by code_simp

section \<open>The cache invariant\<close>

lemma js_lt_16: "js_lt (Num (int j)) len \<Longrightarrow> \<not> js_lt (Num 16) len \<Longrightarrow> j < 16"
  by (cases len) auto

lemma storeState_boolean:
  assumes "cache_boolean b" "\<not> js_lt (Num 16) len"
  shows "cache_boolean (storeState b p (Some (Num (uint (w :: 16 word)))) len)"
  unfolding cache_boolean_def storeState_def
proof (rule storeLoop_ran)
  show "ran (state b) \<subseteq> {Num 0, Num 1}" using assms(1) by (simp add: cache_boolean_def)
next
  fix j assume "js_lt (Num (int j)) len"
  then have "j < 16" using assms(2) by (rule js_lt_16)
  then show "parseInt 10 (js_index (decode (Some (Num (uint w)))) (int j)) \<in> {Num 0, Num 1}"
    by (simp add: decode_word_parse)
qed

lemma countLoop_state: "state (countLoop b g d j) = state b"
proof (induction b g d j rule: countLoop.induct)
  case (1 b g d j)
  then show ?case
    by (cases "js_lt (Num (int j)) (g_di g)") (simp_all add: countLoop.simps [of b g d j])
qed



lemma step_boolean: "cache_boolean b \<Longrightarrow> op_ok x \<Longrightarrow> cache_boolean (step b x)"
proof (cases x)
  case (Discovered i r)
  assume "cache_boolean b"
  then show ?thesis using Discovered
    by (cases r) (simp_all add: discovered_def cache_boolean_def report_state)
next
  case (StateRead g r)
  assume b: "cache_boolean b" and ok: "op_ok x"
  show ?thesis
  proof (cases r)
    case (Inl msg)
    with b StateRead show ?thesis by (simp add: updateState_cb_def cache_boolean_def report_state)
  next
    case (Inr d)
    with ok StateRead have d: "2 \<le> length d" and s: "\<not> js_lt (Num 16) (g_di g)" "\<not> js_lt (Num 16) (g_do g)"
      by simp_all
    have l: "0 < length d" "1 < length d" using d by arith+
    have w: "word_at d 0 = Some (Num (uint (d ! 0)))" "word_at d 1 = Some (Num (uint (d ! 1)))"
      by (rule word_at_some [OF l(1)], rule word_at_some [OF l(2)])
    have "cache_boolean
            (storeState
               (storeState b (''DI'' @ num_toString 10 (Num (g_id g))) (Some (Num (uint (d ! 0)))) (g_di g))
               (''DO'' @ num_toString 10 (Num (g_id g))) (Some (Num (uint (d ! 1)))) (g_do g))"
      by (intro storeState_boolean b s)
    then show ?thesis by (simp only: StateRead Inr step.simps updateState_cb_def sum.case w)
  qed
next
  case (CountRead g r)
  assume "cache_boolean b"
  then show ?thesis using CountRead
    by (cases r) (simp_all add: updateCount_cb_def cache_boolean_def report_state countLoop_state)
next
  case (SetCall ident val retries)
  assume "cache_boolean b"
  then show ?thesis using SetCall by simp
qed

lemma run_boolean: "cache_boolean b \<Longrightarrow> list_all op_ok ops \<Longrightarrow> cache_boolean (run b ops)"
  unfolding run_def
  by (induction ops arbitrary: b) (simp_all add: step_boolean)

text \<open>
  Claim C8, as the code has it. The cache of a new board holds only values 0 and 1, and
  every sequence of discovery callbacks, read callbacks and calls of \<open>set\<close> keeps it so,
  provided each states read that succeeds delivers its two words and is decoded with an
  input count and an output count of at most 16.
\<close>

theorem cache_stays_boolean:
  "cache_boolean new_board \<and>
   (cache_boolean b \<and> list_all op_ok ops \<longrightarrow> cache_boolean (run b ops))"
  by (simp add: run_boolean) (simp add: cache_boolean_def new_board_def)

theorem cache_stays_boolean_witness:
  "cache_boolean (run new_board
      [Discovered 0 (Inr [0x0804, 0]), StateRead (decode_group 0 [0x0804, 0]) (Inr [5, 1]),
       SetCall ''DO1.1'' False 0, CountRead (decode_group 0 [0x0804, 0]) (Inr [1, 2]),
       StateRead (decode_group 0 [0x0804, 0]) (Inl ''Timed out'')])"
proof -
  have "g_di (decode_group 0 [0x0804, 0]) = Num 8" "g_do (decode_group 0 [0x0804, 0]) = Num 4"
    by (simp_all add: decode_group_bits)
  then show ?thesis
    using cache_stays_boolean [of new_board
      "[Discovered 0 (Inr [0x0804, 0]), StateRead (decode_group 0 [0x0804, 0]) (Inr [5, 1]),
        SetCall ''DO1.1'' False 0, CountRead (decode_group 0 [0x0804, 0]) (Inr [1, 2]),
        StateRead (decode_group 0 [0x0804, 0]) (Inl ''Timed out'')]"]
    by simp
qed

text \<open>
  Claim C8 as it is written holds for every sequence. A capability word 0x1100 announces
  17 inputs; the states read decoded with that group stores \<open>NaN\<close> under index 17. And a
  states read that comes back without its words stores \<open>NaN\<close> under index 1.
\<close>

theorem cache_NaN_counterexample:
  "state (run new_board
      [Discovered 0 (Inr [0x1100, 0]), StateRead (decode_group 0 [0x1100, 0]) (Inr [0, 0])]) ''DI1.17''
    = Some NaN \<and>
   state (run new_board
      [StateRead \<lparr>g_id = 1, g_di = Num 1, g_do = Num 0, g_ai = Num 0, g_ao = Num 0, g_serial = Num 0\<rparr>
         (Inr [])]) ''DI1.1''
    = Some NaN"
proof -
  have short: "state (run new_board
      [StateRead \<lparr>g_id = 1, g_di = Num 1, g_do = Num 0, g_ai = Num 0, g_ao = Num 0, g_serial = Num 0\<rparr>
         (Inr [])]) ''DI1.1''
    = Some NaN"
    by code_simp
  have g: "decode_group 0 [0x1100, 0] =
      \<lparr>g_id = 1, g_di = Num 17, g_do = Num 0, g_ai = Num 0, g_ao = Num 0, g_serial = Num 0\<rparr>"
    using decode_group_bits [of 0 "0x1100" 0] by simp
  have k: "point_key ''DI1'' 16 = ''DI1.17''" by code_simp
  have p: "''DI'' @ num_toString 10 (Num 1) = ''DI1''" by code_simp
  have w: "word_at [0, 0] 0 = Some (Num (int 0))" by (simp add: word_at_def js_index_def)
  have "state (storeState b ''DI1'' (Some (Num (int 0))) (Num 17)) (point_key ''DI1'' 16)
      = Some (parseInt 10 (js_index (decode (Some (Num (int 0)))) (int 16)))" for b
    unfolding storeState_def by (rule storeLoop_state_at) simp_all
  moreover have "parseInt 10 (js_index (decode (Some (Num (int 0)))) (int 16)) = NaN"
    by (rule decode_parse_out) simp
  ultimately have s:
    "state (storeState b ''DI1'' (Some (Num (int 0))) (Num 17)) ''DI1.17'' = Some NaN" for b
    unfolding k by simp
  have "state (run new_board
      [Discovered 0 (Inr [0x1100, 0]), StateRead (decode_group 0 [0x1100, 0]) (Inr [0, 0])]) ''DI1.17''
    = Some NaN"
    by (simp only: run_def foldl.simps step.simps updateState_cb_def sum.case g group.simps p w
        storeState_zero s)
  with short show ?thesis by (rule conjI [rotated])
qed

section \<open>The older and the newer store\<close>

lemma storeStep_on_quiet:
  assumes "\<And>us m k str. l us m k str = (m, False)"
  shows "storeStep_on l b p arr i = Normal (storeStep b p arr i)"
  by (simp add: storeStep_on_def storeStep_def store_entry_def Let_def assms)

lemma storeLoop_on_quiet:
  assumes "\<And>us m k str. l us m k str = (m, False)"
  shows "storeLoop_on l b p arr len i = Normal (storeLoop b p arr len i)"
proof (induction b p arr len i rule: storeLoop.induct)
  case (1 b prefix arr len i)
  show ?case
  proof (cases "js_lt (Num (int i)) len")
    case True
    then show ?thesis
      using 1 [OF True]
      by (simp add: storeLoop.simps [of b prefix arr len i]
          storeLoop_on.simps [of l b prefix arr len i] storeStep_on_quiet [OF assms])
  next
    case False
    then show ?thesis
      by (simp add: storeLoop.simps [of b prefix arr len i]
          storeLoop_on.simps [of l b prefix arr len i])
  qed
qed

lemma store_step_quiet:
  assumes "\<And>us m k str. l us m k str = (m, False)"
  shows "store_step l \<lparr>data = state b, old_updates = updates b\<rparr> p arr i
     = Normal \<lparr>data = state (storeStep b p arr i), old_updates = updates (storeStep b p arr i)\<rparr>"
  by (simp add: storeStep_def store_step_def store_entry_def getState_def get_old_def Let_def assms)

lemma store_loop_quiet:
  assumes "\<And>us m k str. l us m k str = (m, False)"
  shows "store_loop l \<lparr>data = state b, old_updates = updates b\<rparr> p arr len i
     = Normal \<lparr>data = state (storeLoop b p arr len i), old_updates = updates (storeLoop b p arr len i)\<rparr>"
proof (induction b p arr len i rule: storeLoop.induct)
  case (1 b prefix arr len i)
  show ?case
  proof (cases "js_lt (Num (int i)) len")
    case True
    then show ?thesis
      using 1 [OF True]
      by (simp add: storeLoop.simps [of b prefix arr len i]
          store_loop.simps [of l "\<lparr>data = state b, old_updates = updates b\<rparr>" prefix arr len i]
          store_step_quiet [OF assms])
  next
    case False
    then show ?thesis
      by (simp add: storeLoop.simps [of b prefix arr len i]
          store_loop.simps [of l "\<lparr>data = state b, old_updates = updates b\<rparr>" prefix arr len i])
  qed
qed

text \<open>
  Claim C10, as the code has it. Take listeners of 'update' that return normally and leave
  the cache as they found it. Then for every prefix, register value, length and cache,
  \<open>store\<close> of the older file and \<open>storeState\<close> of the newer one, started on the same cache
  and the same notifications so far, both return normally, with the same stored value for
  every id and the same notifications, in the same order and with the same id and
  value-as-string.
\<close>

theorem store_storeState_equivalent:
  assumes "\<forall>us m k str. l us m k str = (m, False)"
  shows "(\<exists>b'. storeState_on l b p v len = Normal b' \<and>
            store l \<lparr>data = state b, old_updates = updates b\<rparr> p v len
              = Normal \<lparr>data = state b', old_updates = updates b'\<rparr>) \<and>
         storeState_on l b p v len = Normal (storeState b p v len)"
proof -
  from assms have q: "\<And>us m k str. l us m k str = (m, False)" by blast
  have "storeState_on l b p v len = Normal (storeState b p v len)"
    by (simp add: storeState_on_def storeState_def storeLoop_on_quiet [OF q])
  moreover have "store l \<lparr>data = state b, old_updates = updates b\<rparr> p v len
      = Normal \<lparr>data = state (storeState b p v len), old_updates = updates (storeState b p v len)\<rparr>"
    by (simp add: store_def storeState_def store_loop_quiet [OF q])
  ultimately show ?thesis by blast
qed

theorem store_storeState_equivalent_witness:
  "(\<forall>us m k str. (\<lambda>us m k str. (m, False)) us m k str = (m, False)) \<and>
   (\<exists>b'. storeState_on (\<lambda>us m k str. (m, False)) (new_board\<lparr>state := [''DI1.1'' \<mapsto> Num 0]\<rparr>)
            ''DI1'' (Some (Num 1)) (Num 2) = Normal b' \<and>
          store (\<lambda>us m k str. (m, False))
            \<lparr>data = state (new_board\<lparr>state := [''DI1.1'' \<mapsto> Num 0]\<rparr>),
             old_updates = updates (new_board\<lparr>state := [''DI1.1'' \<mapsto> Num 0]\<rparr>)\<rparr>
            ''DI1'' (Some (Num 1)) (Num 2)
            = Normal \<lparr>data = state b', old_updates = updates b'\<rparr>)"
proof -
  have h: "\<forall>us m k str. (\<lambda>us m k str. (m, False)) us m (k :: string) (str :: string)
      = (m :: string \<rightharpoonup> jsnum, False)"
    by simp
  from store_storeState_equivalent
    [of "\<lambda>us m k str. (m, False)" "new_board\<lparr>state := [''DI1.1'' \<mapsto> Num 0]\<rparr>"
        "''DI1''" "Some (Num 1)" "Num 2", OF h] h
  show ?thesis by blast
qed

text \<open>
  Claim C10 as it is written holds whatever listens. With a listener that throws, the
  older \<open>store\<close> leaves \<open>DI1.1\<close> at 0, the notification having come first, while the
  newer \<open>storeState\<close> has stored 1. With a listener that records the value it finds in
  the cache under the notified id, the two end with different caches though neither
  throws.
\<close>

theorem store_listener_counterexample:
  "data (final (store (\<lambda>us m k str. (m, True))
            \<lparr>data = [''DI1.1'' \<mapsto> Num 0], old_updates = []\<rparr> ''DI1'' (Some (Num 1)) (Num 1)))
      ''DI1.1'' = Some (Num 0) \<and>
   state (final (storeState_on (\<lambda>us m k str. (m, True))
            (new_board\<lparr>state := [''DI1.1'' \<mapsto> Num 0]\<rparr>) ''DI1'' (Some (Num 1)) (Num 1)))
      ''DI1.1'' = Some (Num 1) \<and>
   data (final (store (\<lambda>us m k str. (case m k of None \<Rightarrow> m | Some x \<Rightarrow> m(''seen'' \<mapsto> x), False))
            \<lparr>data = [''DI1.1'' \<mapsto> Num 0], old_updates = []\<rparr> ''DI1'' (Some (Num 1)) (Num 1)))
      ''seen'' = Some (Num 0) \<and>
   state (final (storeState_on (\<lambda>us m k str. (case m k of None \<Rightarrow> m | Some x \<Rightarrow> m(''seen'' \<mapsto> x), False))
            (new_board\<lparr>state := [''DI1.1'' \<mapsto> Num 0]\<rparr>) ''DI1'' (Some (Num 1)) (Num 1)))
      ''seen'' = Some (Num 1)"
  by code_simp

end
